theory Spec2Isabelle
  imports Main "HOL-Library.Word"
begin

unbundle bit_operations_syntax

text \<open>
  The function \<^verbatim>\<open>reverse_count_p\<close> of \<^verbatim>\<open>dotbot/lib/lh2.c\<close> takes the index of one of four
  tap masks and a captured state of a 17-bit shift register, runs the register backwards
  until it meets the seed or one of 15 saved states, and returns the number of steps
  between the seed and the captured state. This theory gives a model of the function,
  shows where the saved states lie in the sequence of the register, and from there what
  the function returns.
\<close>

section \<open>The tables of \<^verbatim>\<open>lh2.c\<close>\<close>

type_synonym u8 = "8 word"
type_synonym u32 = "32 word"

text \<open>
  Reading a C array outside its bounds is undefined behaviour; the model makes it an
  error value, so that every table access of the source is a branch that can fail.
\<close>

datatype error = OutOfBounds

text \<open>\<^verbatim>\<open>static const uint32_t _polynomials[4]\<close>\<close>

definition polynomials :: "u32 list" where
  "polynomials = [0x0001D258, 0x00017E04, 0x0001FF6B, 0x00013F67]"

text \<open>
  \<^verbatim>\<open>static const uint32_t _end_buffers[4][16]\<close>; the binary literals of the source are
  written in hexadecimal, row by row (p0, p1, p2, p3).
\<close>

definition end_buffers :: "u32 list list" where
  "end_buffers =
    [[0x00001, 0x1559D, 0x1155A, 0x19902, 0x0CB1F, 0x1235E, 0x1465F, 0x1E2B1, 0x1719B, 0x14D1E, 0x19B10, 0x08B9F, 0x1CAF5, 0x093B7, 0x1B99D, 0x10D6B],
     [0x00001, 0x1A1BE, 0x16F3C, 0x1856F, 0x05C6E, 0x08634, 0x0229E, 0x14BD1, 0x13021, 0x0E6D6, 0x04743, 0x17685, 0x06536, 0x08FE6, 0x11A3B, 0x0799C],
     [0x00001, 0x036C4, 0x0BA96, 0x1966A, 0x0E3DA, 0x16CFA, 0x16381, 0x112E9, 0x004EB, 0x0C57B, 0x0706F, 0x15738, 0x0FD7F, 0x087AA, 0x09703, 0x02DEE],
     [0x00001, 0x1B796, 0x1880D, 0x1C616, 0x03E8C, 0x182F3, 0x13B8A, 0x01678, 0x07885, 0x09E54, 0x0B4B3, 0x1FA8C, 0x06ADF, 0x0ECAB, 0x021A2, 0x02FAE]]"

text \<open>\<^verbatim>\<open>_polynomials[index]\<close>\<close>

definition polynomial_at :: "u8 \<Rightarrow> error + u32" where
  "polynomial_at index =
     (if unat index < length polynomials then Inr (polynomials ! unat index)
      else Inl OutOfBounds)"

text \<open>\<^verbatim>\<open>_end_buffers[index][idx]\<close>\<close>

definition end_buffer_at :: "u8 \<Rightarrow> u8 \<Rightarrow> error + u32" where
  "end_buffer_at index idx =
     (if unat index < length end_buffers then
        (if unat idx < length (end_buffers ! unat index)
         then Inr (end_buffers ! unat index ! unat idx) else Inl OutOfBounds)
      else Inl OutOfBounds)"

section \<open>The function \<^verbatim>\<open>reverse_count_p\<close>\<close>

text \<open>
  Lines 109--111: the loop over \<open>ii = 0, ..., 16\<close> that accumulates, in \<open>result\<close>,
  the exclusive or of the bits 0 to 16 of \<open>masked_buff\<close>.
\<close>

definition parity_loop :: "u32 \<Rightarrow> u32 \<Rightarrow> u32" where
  "parity_loop masked_buff result0 =
     fold (\<lambda>ii result. result XOR (drop_bit ii masked_buff AND 0x00000001)) [0..<17] result0"

text \<open>
  Lines 106--113: one step backwards in time of the register, for the tap mask \<open>poly\<close>.
  The variable \<open>result\<close> is 0 when the step starts (line 101 and line 114).
\<close>

definition reverse_step :: "u32 \<Rightarrow> u32 \<Rightarrow> u32" where
  "reverse_step poly buffer0 =
     (let b17 = buffer0 AND 0x00000001;
          buffer = drop_bit 1 (buffer0 AND 0x0001FFFE);
          masked_buff = buffer AND poly;
          result = parity_loop masked_buff 0;
          result = result XOR b17
      in buffer OR push_bit 16 result)"

text \<open>
  Lines 116--121: the scan of the saved states \<open>idx = 1, ..., 15\<close>, on the pair
  \<open>(count, buffer)\<close>. A match does not leave the scan: the later entries are compared
  with the new buffer.
\<close>

fun checkpoint_scan :: "u8 \<Rightarrow> u8 list \<Rightarrow> u32 \<times> u32 \<Rightarrow> error + u32 \<times> u32" where
  "checkpoint_scan index [] s = Inr s"
| "checkpoint_scan index (idx # idxs) (count, buffer) =
     (case end_buffer_at index idx of
        Inl e \<Rightarrow> Inl e
      | Inr saved \<Rightarrow>
          if buffer XOR saved = 0x00000000 then
            (case end_buffer_at index 0 of
               Inl e \<Rightarrow> Inl e
             | Inr seed \<Rightarrow> checkpoint_scan index idxs (count + 8192 * ucast idx - 1, seed))
          else checkpoint_scan index idxs (count, buffer))"

text \<open>The values of \<open>idx\<close> in the scan: \<^verbatim>\<open>for (uint8_t idx = 1; idx < 16; idx++)\<close>.\<close>

definition scan_indices :: "u8 list" where
  "scan_indices = map of_nat [1..<16]"

text \<open>Lines 106--121: the body of the while loop, on the pair \<open>(count, buffer)\<close>.\<close>

definition loop_body :: "u8 \<Rightarrow> u32 \<times> u32 \<Rightarrow> error + u32 \<times> u32" where
  "loop_body index s =
     (case polynomial_at index of
        Inl e \<Rightarrow> Inl e
      | Inr poly \<Rightarrow>
          checkpoint_scan index scan_indices (fst s + 1, reverse_step poly (snd s)))"

text \<open>
  Lines 104--122: the while loop. It may run forever, so it is a partial function:
  \<open>None\<close> is the loop that never leaves, \<open>Some (Inl e)\<close> a table access out of
  bounds, \<open>Some (Inr count)\<close> the value returned.
\<close>

partial_function (option) while_loop :: "u8 \<Rightarrow> u32 \<times> u32 \<Rightarrow> (error + u32) option" where
  "while_loop index s =
     (case end_buffer_at index 0 of
        Inl e \<Rightarrow> Some (Inl e)
      | Inr seed \<Rightarrow>
          if snd s \<noteq> seed then
            (case loop_body index s of
               Inl e \<Rightarrow> Some (Inl e)
             | Inr s' \<Rightarrow> while_loop index s')
          else Some (Inr (fst s)))"

text \<open>\<^verbatim>\<open>uint32_t reverse_count_p(uint8_t index, uint32_t bits)\<close>\<close>

definition reverse_count_p :: "u8 \<Rightarrow> u32 \<Rightarrow> (error + u32) option" where
  "reverse_count_p index bits = while_loop index (0, bits AND 0x0001FFFFF)"

text \<open>
  The same loop with a bound on the number of times its body runs: \<open>while_fuel n\<close>
  is \<open>None\<close> when the loop has not left after \<open>n\<close> runs of the body.
\<close>

fun while_fuel :: "nat \<Rightarrow> u8 \<Rightarrow> u32 \<times> u32 \<Rightarrow> (error + u32) option" where
  "while_fuel 0 index s =
     (case end_buffer_at index 0 of
        Inl e \<Rightarrow> Some (Inl e)
      | Inr seed \<Rightarrow> if snd s \<noteq> seed then None else Some (Inr (fst s)))"
| "while_fuel (Suc n) index s =
     (case end_buffer_at index 0 of
        Inl e \<Rightarrow> Some (Inl e)
      | Inr seed \<Rightarrow>
          if snd s \<noteq> seed then
            (case loop_body index s of
               Inl e \<Rightarrow> Some (Inl e)
             | Inr s' \<Rightarrow> while_fuel n index s')
          else Some (Inr (fst s)))"

section \<open>The forward register\<close>

text \<open>
  The source has only the step backwards. The step forwards is defined here as its
  inverse on 17-bit states: the register moves up by one place and the new lowest bit
  is the bit that \<open>reverse_step\<close> takes as \<open>b17\<close>.
\<close>

definition forward_step :: "u32 \<Rightarrow> u32 \<Rightarrow> u32" where
  "forward_step poly s =
     push_bit 1 (s AND 0x0000FFFF)
       OR ((drop_bit 16 s AND 0x00000001) XOR parity_loop ((s AND 0x0000FFFF) AND poly) 0)"

text \<open>The state of the register \<open>n\<close> steps after the seed.\<close>

definition state_at :: "u32 \<Rightarrow> nat \<Rightarrow> u32" where
  "state_at poly n = (forward_step poly ^^ n) 0x00000001"

section \<open>Linear maps on register states\<close>

text \<open>
  A map that commutes with exclusive or is fixed by its values on the single bits.
  \<open>lin_apply cs\<close> is the map whose value on bit \<open>i\<close> is the \<open>i\<close>-th entry of
  \<open>cs\<close>; \<open>lin_square\<close> composes such a map with itself, and \<open>lin_cols\<close> reads the
  17 entries off a function.
\<close>

fun lin_apply :: "u32 list \<Rightarrow> u32 \<Rightarrow> u32" where
  "lin_apply [] x = 0"
| "lin_apply (c # cs) x = (if bit x 0 then c else 0) XOR lin_apply cs (drop_bit 1 x)"

definition lin_square :: "u32 list \<Rightarrow> u32 list" where
  "lin_square cs = map (lin_apply cs) cs"

fun lin_square_iter :: "nat \<Rightarrow> u32 list \<Rightarrow> u32 list" where
  "lin_square_iter 0 cs = cs"
| "lin_square_iter (Suc k) cs = lin_square_iter k (lin_square cs)"

definition lin_cols :: "(u32 \<Rightarrow> u32) \<Rightarrow> u32 list" where
  "lin_cols f = map (\<lambda>i. f (push_bit i 1)) [0..<17]"

section \<open>A check of the saved states\<close>

text \<open>
  \<open>table_check poly es m\<close> is an executable check of a row \<open>es\<close> of the table against
  the tap mask \<open>poly\<close>: \<open>m\<close> is the map of 8192 reverse steps, obtained from the map of
  one step by 13 squarings; this map sends entry 1 to the state one step before the seed,
  every entry from 2 to 15 to the entry before it, and the seed to entry 15.
\<close>

definition table_check :: "u32 \<Rightarrow> u32 list \<Rightarrow> u32 list \<Rightarrow> bool" where
  "table_check poly es m \<longleftrightarrow>
     m = lin_square_iter 13 (lin_cols (reverse_step poly))
     \<and> length es = 16
     \<and> es ! 0 = 1
     \<and> list_all (\<lambda>x. take_bit 17 x = x) es
     \<and> map (lin_apply m) (tl es @ [1]) = reverse_step poly 1 # tl es
     \<and> forward_step poly 1 \<noteq> 1"

text \<open>The maps of 8192 reverse steps for the four tap masks, as computed by the check.\<close>

definition reverse_8192 :: "u32 list list" where
  "reverse_8192 =
    [[68971, 6871, 13742, 27484, 121810, 47822, 95645, 124496, 117920, 104769, 16361, 32722,
      65445, 61985, 123970, 50671, 34485],
     [31132, 62265, 124530, 111993, 92914, 54757, 109514, 87956, 44840, 89680, 50492, 127973,
      106070, 83248, 62461, 106087, 81102],
     [11758, 30258, 49547, 99094, 76739, 22406, 33506, 75819, 20567, 36161, 79724, 17207,
      43904, 97007, 55345, 105868, 71415],
     [12206, 28914, 52811, 111416, 91760, 52448, 112238, 82803, 34535, 74337, 27500, 63863,
      122177, 103725, 67061, 3051, 6103]]"

section \<open>Properties of the reverse step\<close>

lemma and_push_mask: "drop_bit k (b AND push_bit k (mask n)) = take_bit n (drop_bit k (b::u32))"
  by (rule bit_word_eqI) (auto simp add: bit_simps dest: bit_imp_le_length)

lemma mask_1fffe: "drop_bit 1 (b AND (0x0001FFFE::u32)) = take_bit 16 (drop_bit 1 b)"
proof -
  have "(0x0001FFFE::u32) = push_bit 1 (mask 16)" by (simp add: mask_eq_exp_minus_1)
  then show ?thesis by (simp only: and_push_mask)
qed

lemma and_ffff: "b AND (0x0000FFFF::u32) = take_bit 16 b"
proof -
  have "(0x0000FFFF::u32) = mask 16" by (simp add: mask_eq_exp_minus_1)
  then show ?thesis by (simp only: take_bit_eq_mask)
qed

lemma xor_fold_acc: "fold (\<lambda>i r. r XOR g i) is (r::u32) = r XOR fold (\<lambda>i r. r XOR g i) is 0"
proof (induction "is" arbitrary: r)
  case Nil show ?case by simp
next
  case (Cons i "is")
  have "fold (\<lambda>i r. r XOR g i) (i # is) r = fold (\<lambda>i r. r XOR g i) is (r XOR g i)" by simp
  also have "\<dots> = (r XOR g i) XOR fold (\<lambda>i r. r XOR g i) is 0" by (rule Cons.IH)
  also have "\<dots> = r XOR (g i XOR fold (\<lambda>i r. r XOR g i) is 0)" by (simp only: xor.assoc)
  also have "g i XOR fold (\<lambda>i r. r XOR g i) is 0 = fold (\<lambda>i r. r XOR g i) is (g i)"
    by (rule Cons.IH [symmetric])
  also have "\<dots> = fold (\<lambda>i r. r XOR g i) (i # is) 0" by simp
  finally show ?case .
qed

lemma xor_fold_xor:
  "fold (\<lambda>i r. r XOR (g i XOR h i)) is (0::u32)
     = fold (\<lambda>i r. r XOR g i) is 0 XOR fold (\<lambda>i r. r XOR h i) is 0"
proof (induction "is")
  case Nil show ?case by simp
next
  case (Cons i "is")
  have "fold (\<lambda>i r. r XOR (g i XOR h i)) (i # is) 0
      = (g i XOR h i) XOR fold (\<lambda>i r. r XOR (g i XOR h i)) is 0"
    using xor_fold_acc [of "\<lambda>i. g i XOR h i" "is" "g i XOR h i"] by simp
  moreover have "fold (\<lambda>i r. r XOR g i) (i # is) 0 = g i XOR fold (\<lambda>i r. r XOR g i) is 0"
    using xor_fold_acc [of g "is" "g i"] by simp
  moreover have "fold (\<lambda>i r. r XOR h i) (i # is) 0 = h i XOR fold (\<lambda>i r. r XOR h i) is 0"
    using xor_fold_acc [of h "is" "h i"] by simp
  ultimately show ?case
    by (simp only: Cons.IH xor.assoc xor.left_commute)
qed

lemma xor_fold_and1:
  "(\<And>i. g i AND 1 = g i) \<Longrightarrow> fold (\<lambda>i r. r XOR g i) is (0::u32) AND 1 = fold (\<lambda>i r. r XOR g i) is 0"
proof (induction "is")
  case Nil show ?case by simp
next
  case (Cons i "is")
  have "fold (\<lambda>i r. r XOR g i) (i # is) 0 = g i XOR fold (\<lambda>i r. r XOR g i) is 0"
    using xor_fold_acc [of g "is" "g i"] by simp
  then show ?case
    using Cons by (simp only: bit.conj_xor_distrib2)
qed

lemma parity_loop_xor: "parity_loop (a XOR b) 0 = parity_loop a 0 XOR parity_loop b 0"
proof -
  have "(\<lambda>ii result. result XOR (drop_bit ii (a XOR b) AND (1::u32)))
      = (\<lambda>ii result. result XOR ((drop_bit ii a AND 1) XOR (drop_bit ii b AND 1)))"
    by (simp only: drop_bit_xor bit.conj_xor_distrib2)
  then show ?thesis
    unfolding parity_loop_def by (simp only: xor_fold_xor)
qed

lemma parity_loop_and1: "parity_loop m 0 AND 1 = parity_loop m 0"
  unfolding parity_loop_def by (rule xor_fold_and1) (simp only: and.assoc and.idem)

lemma parity_loop_acc: "parity_loop m r = r XOR parity_loop m 0"
  unfolding parity_loop_def by (rule xor_fold_acc)

lemma low_high_disjoint: "take_bit n (x::u32) AND push_bit n y = 0"
  by (rule bit_word_eqI) (auto simp add: bit_simps)

lemma take_bit_low_high:
  "m = Suc n \<Longrightarrow>
   take_bit m (take_bit n (x::u32) XOR push_bit n (y AND 1)) = take_bit n x XOR push_bit n (y AND 1)"
  by (rule bit_word_eqI) (auto simp add: bit_simps)

lemma reverse_step_alt:
  "reverse_step poly b =
     take_bit 16 (drop_bit 1 b) XOR push_bit 16 ((parity_loop (take_bit 16 (drop_bit 1 b) AND poly) 0 XOR b) AND 1)"
proof -
  let ?x = "take_bit 16 (drop_bit 1 b)"
  let ?r = "(parity_loop (?x AND poly) 0 XOR b) AND 1"
  have "?x AND push_bit 16 ?r = 0"
    by (rule low_high_disjoint)
  then have "?x OR push_bit 16 ?r = ?x XOR push_bit 16 ?r"
    by (simp only: disjunctive_xor_eq_or)
  moreover have "parity_loop (?x AND poly) 0 XOR (b AND 1) = ?r"
    by (subst parity_loop_and1 [symmetric]) (simp only: bit.conj_xor_distrib2)
  ultimately show ?thesis
    by (simp only: reverse_step_def Let_def mask_1fffe)
qed

lemma reverse_step_xor: "reverse_step poly (a XOR b) = reverse_step poly a XOR reverse_step poly b"
  by (simp only: reverse_step_alt parity_loop_xor bit.conj_xor_distrib2 drop_bit_xor take_bit_xor push_bit_xor
        xor.assoc xor.left_commute)

lemma reverse_step_take_bit: "take_bit 17 (reverse_step poly b) = reverse_step poly b"
  unfolding reverse_step_alt
  by (rule take_bit_low_high) simp

lemma reverse_step_low: "reverse_step poly (take_bit 17 b) = reverse_step poly b"
proof -
  have "take_bit 16 (drop_bit 1 (take_bit 17 b)) = take_bit 16 (drop_bit 1 b)"
    by (rule bit_word_eqI) (auto simp add: bit_simps)
  moreover have "(x XOR take_bit 17 b) AND 1 = (x XOR b) AND 1" for x :: u32
    by (rule bit_word_eqI) (auto simp add: bit_simps)
  ultimately show ?thesis
    by (simp only: reverse_step_alt)
qed

section \<open>Maps that commute with exclusive or\<close>

lemma take_bit_add_split:
  "take_bit (k + n) (x::u32) = take_bit k x XOR push_bit k (take_bit n (drop_bit k x))"
  by (rule bit_word_eqI) (auto simp add: bit_simps)

lemma take_bit_1_if: "take_bit 1 (x::u32) = (if bit x 0 then 1 else 0)"
  by (simp add: bit_0 mod_2_eq_odd)

lemma take_bit_Suc_split:
  "take_bit (Suc n) (x::u32) = (if bit x 0 then 1 else 0) XOR push_bit 1 (take_bit n (drop_bit 1 x))"
  using take_bit_add_split [of 1 n x] by (simp only: take_bit_1_if plus_1_eq_Suc)

lemma lin_zero:
  assumes "\<And>a b. (f::u32 \<Rightarrow> u32) (a XOR b) = f a XOR f b"
  shows "f 0 = (0::u32)"
  using assms [of 0 0] by simp

lemma lin_apply_map:
  assumes "\<And>a b. (f::u32 \<Rightarrow> u32) (a XOR b) = f a XOR f b"
  shows "lin_apply (map (\<lambda>i. f (push_bit i 1)) [0..<n]) x = f (take_bit n x)"
  using assms
proof (induction n arbitrary: f x)
  case 0
  then show ?case using lin_zero [of f] by simp
next
  case (Suc n)
  let ?f' = "\<lambda>y. f (push_bit 1 y)"
  have lin': "?f' (a XOR b) = ?f' a XOR ?f' b" for a b
    by (simp only: push_bit_xor Suc.prems)
  have upt: "[0..<Suc n] = 0 # map Suc [0..<n]"
    by (simp only: upt_conv_Cons [of 0 "Suc n"] map_Suc_upt)
  have shift: "push_bit (Suc i) (1::u32) = push_bit 1 (push_bit i 1)" for i
    by (simp add: push_bit_eq_mult)
  have "map (\<lambda>i. f (push_bit i 1)) [0..<Suc n]
      = f (push_bit 0 1) # map (\<lambda>i. ?f' (push_bit i 1)) [0..<n]"
    unfolding upt by (simp only: list.map map_map comp_def shift)
  then have "lin_apply (map (\<lambda>i. f (push_bit i 1)) [0..<Suc n]) x
      = (if bit x 0 then f 1 else 0) XOR ?f' (take_bit n (drop_bit 1 x))"
    using Suc.IH [of ?f' "drop_bit 1 x", OF lin'] by (simp del: upt_Suc)
  also have "\<dots> = f (if bit x 0 then 1 else 0) XOR f (push_bit 1 (take_bit n (drop_bit 1 x)))"
    using lin_zero [of f, OF Suc.prems] by simp
  also have "\<dots> = f (take_bit (Suc n) x)"
    by (simp only: Suc.prems [symmetric] take_bit_Suc_split)
  finally show ?case .
qed

lemma lin_cols_apply:
  assumes "\<And>a b. (f::u32 \<Rightarrow> u32) (a XOR b) = f a XOR f b" and "take_bit 17 x = x"
  shows "lin_apply (lin_cols f) x = f x"
  using lin_apply_map [of f 17 x, OF assms(1)] assms(2) by (simp only: lin_cols_def)

lemma lin_cols_comp:
  assumes "\<And>a b. (f::u32 \<Rightarrow> u32) (a XOR b) = f a XOR f b" and "\<And>y. take_bit 17 (f y) = f y"
  shows "lin_cols (f \<circ> f) = lin_square (lin_cols f)"
proof -
  have "lin_apply (lin_cols f) (f y) = f (f y)" for y
    by (rule lin_cols_apply) (rule assms)+
  then show ?thesis
    by (simp add: lin_cols_def lin_square_def del: upt_Suc)
qed

lemma lin_funpow:
  assumes "\<And>a b. (f::u32 \<Rightarrow> u32) (a XOR b) = f a XOR f b"
  shows "(f ^^ n) (a XOR b) = (f ^^ n) a XOR (f ^^ n) b"
proof (induction n)
  case 0
  show ?case by simp
next
  case (Suc n)
  then show ?case by (simp add: assms)
qed

lemma lin_cols_pow2:
  assumes "\<And>a b. (f::u32 \<Rightarrow> u32) (a XOR b) = f a XOR f b" and "\<And>y. take_bit 17 (f y) = f y"
  shows "lin_cols (f ^^ (2 ^ k)) = lin_square_iter k (lin_cols f)"
  using assms
proof (induction k arbitrary: f)
  case 0
  then show ?case by simp
next
  case (Suc k)
  have lin2: "(f \<circ> f) (a XOR b) = (f \<circ> f) a XOR (f \<circ> f) b" for a b
    by (simp add: Suc.prems(1))
  have out2: "take_bit 17 ((f \<circ> f) y) = (f \<circ> f) y" for y
    by (simp add: Suc.prems(2))
  have "f ^^ (2 ^ Suc k) = (f ^^ 2) ^^ (2 ^ k)"
    by (simp add: funpow_mult)
  also have "f ^^ 2 = f \<circ> f"
    by (simp add: numeral_2_eq_2)
  finally have "lin_cols (f ^^ (2 ^ Suc k)) = lin_cols ((f \<circ> f) ^^ (2 ^ k))"
    by (simp only:)
  also have "\<dots> = lin_square_iter k (lin_cols (f \<circ> f))"
    by (rule Suc.IH [of "f \<circ> f", OF lin2 out2])
  also have "\<dots> = lin_square_iter (Suc k) (lin_cols f)"
    by (simp add: lin_cols_comp [of f, OF Suc.prems])
  finally show ?case .
qed

section \<open>The forward step inverts the reverse step\<close>

lemma forward_step_alt:
  "forward_step poly s =
     push_bit 1 (take_bit 16 s) XOR ((drop_bit 16 s XOR parity_loop (take_bit 16 s AND poly) 0) AND 1)"
proof -
  let ?x = "push_bit 1 (take_bit 16 s)"
  let ?r = "(drop_bit 16 s XOR parity_loop (take_bit 16 s AND poly) 0) AND 1"
  have "?r AND ?x = 0"
    using low_high_disjoint [of 1 ?r "take_bit 16 s"] take_bit_1_if [of ?r]
    by (simp only: take_bit_eq_mask mask_1 and.assoc and.idem)
  then have "?x OR ?r = ?x XOR ?r"
    by (simp only: disjunctive_xor_eq_or and.commute)
  moreover have "(drop_bit 16 s AND 1) XOR parity_loop (take_bit 16 s AND poly) 0 = ?r"
    by (subst parity_loop_and1 [symmetric]) (simp only: bit.conj_xor_distrib2)
  ultimately show ?thesis
    by (simp only: forward_step_def and_ffff)
qed

lemma shift_in_low:
  "0 < k \<Longrightarrow> k + n \<le> 32 \<Longrightarrow>
   take_bit n (drop_bit k (push_bit k (take_bit n (x::u32)) XOR (y AND 1))) = take_bit n x"
  by (rule bit_word_eqI) (auto simp add: bit_simps)

lemma shift_in_bit0:
  "0 < k \<Longrightarrow> (z XOR (push_bit k (x::u32) XOR (y AND 1))) AND 1 = (z XOR y) AND 1"
  by (rule bit_word_eqI) (auto simp add: bit_simps)

lemma take_bit_top:
  "m = Suc n \<Longrightarrow> take_bit n (x::u32) XOR push_bit n (drop_bit n x AND 1) = take_bit m x"
  by (rule bit_word_eqI) (auto simp add: bit_simps less_Suc_eq)

lemma xor_cancel_outer: "p XOR (d XOR p) = (d::u32)"
  by (simp add: ac_simps)

lemma reverse_forward: "reverse_step poly (forward_step poly s) = take_bit 17 s"
proof -
  let ?p = "parity_loop (take_bit 16 s AND poly) 0"
  have "(?p XOR forward_step poly s) AND 1 = (?p XOR (drop_bit 16 s XOR ?p)) AND 1"
    unfolding forward_step_alt by (rule shift_in_bit0) simp
  also have "\<dots> = drop_bit 16 s AND 1"
    by (simp only: xor_cancel_outer)
  finally have bit: "(?p XOR forward_step poly s) AND 1 = drop_bit 16 s AND 1" .
  have low: "take_bit 16 (drop_bit 1 (forward_step poly s)) = take_bit 16 s"
    unfolding forward_step_alt by (rule shift_in_low) simp_all
  show ?thesis
    unfolding reverse_step_alt low bit by (rule take_bit_top) simp
qed

lemma take_bit_shift_in:
  "0 < k \<Longrightarrow> m = k + n \<Longrightarrow>
   take_bit m (push_bit k (take_bit n (x::u32)) XOR (y AND 1)) = push_bit k (take_bit n x) XOR (y AND 1)"
  by (rule bit_word_eqI) (auto simp add: bit_simps)

lemma forward_step_take_bit: "take_bit 17 (forward_step poly s) = forward_step poly s"
  unfolding forward_step_alt by (rule take_bit_shift_in) simp_all

lemma low_of_low_high:
  "take_bit n (take_bit n (x::u32) XOR push_bit n y) = take_bit n x"
  by (rule bit_word_eqI) (auto simp add: bit_simps)

lemma high_of_low_high:
  "n < 32 \<Longrightarrow> drop_bit n (take_bit n (x::u32) XOR push_bit n (y AND 1)) AND 1 = y AND 1"
  by (rule bit_word_eqI) (auto simp add: bit_simps)

lemma take_bit_bottom:
  "m = Suc n \<Longrightarrow> push_bit 1 (take_bit n (drop_bit 1 (b::u32))) XOR (b AND 1) = take_bit m b"
  using take_bit_Suc_split [of n b] and_one_eq [of b]
  by (simp add: xor.commute bit_0 mod_2_eq_odd)

lemma forward_reverse: "forward_step poly (reverse_step poly b) = take_bit 17 b"
proof -
  let ?x = "take_bit 16 (drop_bit 1 b)"
  let ?p = "parity_loop (?x AND poly) 0"
  have low: "take_bit 16 (reverse_step poly b) = ?x"
    unfolding reverse_step_alt by (rule low_of_low_high)
  have "(drop_bit 16 (reverse_step poly b) XOR ?p) AND 1
      = (drop_bit 16 (reverse_step poly b) AND 1) XOR (?p AND 1)"
    by (simp only: bit.conj_xor_distrib2)
  also have "drop_bit 16 (reverse_step poly b) AND 1 = (?p XOR b) AND 1"
    unfolding reverse_step_alt by (rule high_of_low_high) simp
  also have "((?p XOR b) AND 1) XOR (?p AND 1) = b AND 1"
    by (simp only: bit.conj_xor_distrib2 [symmetric] xor.commute [of ?p b] xor.assoc bit.xor_self
        xor.comm_neutral)
  finally have "forward_step poly (reverse_step poly b) = push_bit 1 ?x XOR (b AND 1)"
    unfolding forward_step_alt low by (simp only:)
  also have "\<dots> = take_bit 17 b"
    by (rule take_bit_bottom) simp
  finally show ?thesis .
qed

section \<open>The sequence of register states\<close>

lemma state_at_0: "state_at poly 0 = 1"
  by (simp add: state_at_def)

lemma state_at_Suc: "state_at poly (Suc n) = forward_step poly (state_at poly n)"
  by (simp add: state_at_def)

lemma take_bit_17_one: "take_bit 17 (1::u32) = 1"
  by simp

lemma state_at_take_bit: "take_bit 17 (state_at poly n) = state_at poly n"
  by (cases n) (simp_all only: state_at_0 state_at_Suc forward_step_take_bit take_bit_17_one)

lemma reverse_state_at: "reverse_step poly (state_at poly (Suc n)) = state_at poly n"
  by (simp only: state_at_Suc reverse_forward state_at_take_bit)

lemma state_at_add: "state_at poly (a + b) = (forward_step poly ^^ a) (state_at poly b)"
  by (simp add: state_at_def funpow_add)

lemma reverse_pow_take_bit:
  "take_bit 17 x = x \<Longrightarrow> take_bit 17 ((reverse_step poly ^^ n) x) = (reverse_step poly ^^ n) x"
  by (cases n) (simp_all add: reverse_step_take_bit)

lemma forward_reverse_pow:
  assumes "take_bit 17 x = x"
  shows "(forward_step poly ^^ n) ((reverse_step poly ^^ n) x) = x"
proof (induction n)
  case 0
  show ?case by simp
next
  case (Suc n)
  have "(forward_step poly ^^ Suc n) ((reverse_step poly ^^ Suc n) x)
      = (forward_step poly ^^ n) (forward_step poly (reverse_step poly ((reverse_step poly ^^ n) x)))"
    by (simp add: funpow_swap1)
  also have "forward_step poly (reverse_step poly ((reverse_step poly ^^ n) x))
      = (reverse_step poly ^^ n) x"
    by (simp only: forward_reverse reverse_pow_take_bit [OF assms])
  finally show ?case using Suc.IH by simp
qed

lemma reverse_pow_state_at: "(reverse_step poly ^^ k) (state_at poly (k + n)) = state_at poly n"
proof (induction k)
  case 0
  show ?case by simp
next
  case (Suc k)
  have "(reverse_step poly ^^ Suc k) (state_at poly (Suc k + n))
      = (reverse_step poly ^^ k) (reverse_step poly (state_at poly (Suc (k + n))))"
    by (simp add: funpow_swap1)
  then show ?case
    using Suc.IH by (simp only: reverse_state_at)
qed

lemma reverse_pow_eq_state:
  assumes "take_bit 17 x = x" and "(reverse_step poly ^^ n) x = state_at poly m"
  shows "x = state_at poly (n + m)"
  using forward_reverse_pow [OF assms(1), where poly = poly and n = n] assms(2)
    state_at_add [of poly n m]
  by simp

subsection \<open>The period\<close>

lemma small_divisors: "list_all (\<lambda>d. 131071 mod d \<noteq> (0::nat)) [2..<363]"
  by simp

lemma no_small_divisor:
  assumes "k dvd (131071::nat)" and "k < 363"
  shows "k = 1"
proof -
  have "\<forall>d\<in>set [2..<363]. 131071 mod d \<noteq> (0::nat)"
    using small_divisors unfolding list_all_iff .
  then have ball: "\<forall>d\<in>{2..<363}. 131071 mod d \<noteq> (0::nat)"
    unfolding set_upt .
  have zero: "131071 mod k = 0"
    using assms(1) by (rule dvd_imp_mod_0)
  have "k \<notin> {2..<363}"
  proof
    assume "k \<in> {2..<363}"
    with ball have "131071 mod k \<noteq> 0" by (rule bspec)
    with zero show False by (rule notE [rotated])
  qed
  then have "\<not> 2 \<le> k"
    using assms(2) by simp
  moreover have "k \<noteq> 0"
    using assms(1) by (cases "k = 0") simp_all
  ultimately show ?thesis by simp
qed

lemma divisors_131071:
  assumes "d dvd (131071::nat)"
  shows "d = 1 \<or> d = 131071"
proof -
  from assms obtain e where e: "131071 = d * e" ..
  have ed: "e dvd 131071" unfolding e by (rule dvd_triv_right)
  show ?thesis
  proof (cases "d < 363")
    case True
    with assms have "d = 1" by (rule no_small_divisor)
    then show ?thesis ..
  next
    case False
    have "e < 363"
    proof (rule ccontr)
      assume "\<not> e < 363"
      with False have "363 * 363 \<le> d * e"
        by (intro mult_le_mono) simp_all
      with e show False by simp
    qed
    with ed have "e = 1" by (rule no_small_divisor)
    with e show ?thesis by simp
  qed
qed

lemma state_at_shift:
  assumes "state_at poly d = 1"
  shows "state_at poly (m + q * d) = state_at poly m"
proof (induction q)
  case 0
  show ?case by simp
next
  case (Suc q)
  have "state_at poly (m + Suc q * d) = state_at poly ((m + q * d) + d)"
    by (simp add: ac_simps)
  also have "\<dots> = (forward_step poly ^^ (m + q * d)) (state_at poly d)"
    by (rule state_at_add)
  also have "\<dots> = state_at poly (m + q * d)"
    by (simp only: assms) (simp only: state_at_def)
  finally show ?case using Suc.IH by simp
qed

lemma state_at_no_return:
  assumes period: "state_at poly 131071 = 1" and one: "state_at poly 1 \<noteq> 1"
    and n: "0 < n" "n < 131071"
  shows "state_at poly n \<noteq> 1"
proof
  assume ret: "state_at poly n = 1"
  define d where "d = (LEAST d. 0 < d \<and> state_at poly d = 1)"
  have d: "0 < d \<and> state_at poly d = 1"
    unfolding d_def by (rule LeastI [of _ n]) (simp add: n ret)
  have dn: "d \<le> n"
    unfolding d_def by (rule Least_le) (simp add: n ret)
  have least: "d \<le> k" if "0 < k" "state_at poly k = 1" for k
    unfolding d_def by (rule Least_le) (simp add: that)
  have "state_at poly (131071 mod d + (131071 div d) * d) = state_at poly (131071 mod d)"
    by (rule state_at_shift) (simp add: d)
  then have "state_at poly (131071 mod d) = 1"
    using period by simp
  moreover have "131071 mod d < d"
    using d by simp
  ultimately have "131071 mod d = 0"
    using least [of "131071 mod d"] by (cases "131071 mod d = 0") auto
  then have "d dvd 131071" by auto
  then have "d = 1 \<or> d = 131071" by (rule divisors_131071)
  then show False using d one dn n by auto
qed

lemma state_at_inj_less:
  assumes period: "state_at poly 131071 = 1" and one: "state_at poly 1 \<noteq> 1"
    and ab: "a < b" "b < 131071" and eq: "state_at poly a = state_at poly b"
  shows False
proof -
  have "(reverse_step poly ^^ a) (state_at poly (a + (b - a))) = state_at poly (b - a)"
    by (rule reverse_pow_state_at)
  moreover have "(reverse_step poly ^^ a) (state_at poly (a + 0)) = state_at poly 0"
    by (rule reverse_pow_state_at)
  ultimately have "state_at poly (b - a) = 1"
    using ab eq by (simp add: state_at_0)
  moreover have "state_at poly (b - a) \<noteq> 1"
    using period one by (rule state_at_no_return) (use ab in simp_all)
  ultimately show False by simp
qed

lemma state_at_inj:
  assumes "state_at poly 131071 = 1" and "state_at poly 1 \<noteq> 1"
    and "a < 131071" "b < 131071" and "state_at poly a = state_at poly b"
  shows "a = b"
proof (rule ccontr)
  assume "a \<noteq> b"
  then consider "a < b" | "b < a" by linarith
  then show False
  proof cases
    case 1
    with assms show False using state_at_inj_less [of poly a b] by simp
  next
    case 2
    with assms show False using state_at_inj_less [of poly b a] by simp
  qed
qed

lemma state_at_mod:
  assumes "state_at poly 131071 = 1"
  shows "state_at poly (n mod 131071) = state_at poly n"
  using state_at_shift [OF assms, of "n mod 131071" "n div 131071"] by simp

subsection \<open>What the check of a table row gives\<close>

lemma table_checkD:
  assumes "table_check poly es m"
  shows "m = lin_square_iter 13 (lin_cols (reverse_step poly))"
    and "length es = 16"
    and "es ! 0 = 1"
    and "list_all (\<lambda>x. take_bit 17 x = x) es"
    and "map (lin_apply m) (tl es @ [1]) = reverse_step poly 1 # tl es"
    and "forward_step poly 1 \<noteq> 1"
  using assms unfolding table_check_def by blast+

lemma table_check_power:
  assumes "table_check poly es m" and "take_bit 17 x = x"
  shows "(reverse_step poly ^^ 8192) x = lin_apply m x"
proof -
  let ?R = "reverse_step poly"
  have lin: "?R (a XOR b) = ?R a XOR ?R b" for a b
    by (rule reverse_step_xor)
  have out: "take_bit 17 (?R y) = ?R y" for y
    by (rule reverse_step_take_bit)
  have "lin_cols (?R ^^ (2 ^ 13)) = lin_square_iter 13 (lin_cols ?R)"
    by (rule lin_cols_pow2 [of ?R, OF lin out])
  moreover have "m = lin_square_iter 13 (lin_cols ?R)"
    by (rule table_checkD(1) [OF assms(1)])
  moreover have "(2::nat) ^ 13 = 8192"
    by simp
  ultimately have "lin_cols (?R ^^ 8192) = m"
    by (simp only:)
  moreover have "lin_apply (lin_cols (?R ^^ 8192)) x = (?R ^^ 8192) x"
    by (rule lin_cols_apply [of "?R ^^ 8192", OF lin_funpow [of ?R, OF lin] assms(2)])
  ultimately show ?thesis by (simp only:)
qed

lemma table_check_first_step:
  assumes "table_check poly es m"
  shows "state_at poly 1 \<noteq> 1"
  using table_checkD(6) [OF assms] by (simp add: state_at_def)

lemma table_check_bits:
  assumes "table_check poly es m" and "k < 16"
  shows "take_bit 17 (es ! k) = es ! k"
  using table_checkD(4) [OF assms(1)] table_checkD(2) [OF assms(1)] assms(2)
  by (simp add: list_all_length)

lemma table_check_chain:
  assumes "table_check poly es m" and "j < 16"
  shows "lin_apply m ((tl es @ [1]) ! j) = (reverse_step poly 1 # tl es) ! j"
proof -
  have "map (lin_apply m) (tl es @ [1]) ! j = lin_apply m ((tl es @ [1]) ! j)"
    by (rule nth_map) (simp add: table_checkD(2) [OF assms(1)] assms(2))
  then show ?thesis
    by (simp only: table_checkD(5) [OF assms(1)])
qed

lemma table_check_first:
  assumes "table_check poly es m"
  shows "lin_apply m (es ! 1) = reverse_step poly 1"
  using table_check_chain [OF assms, of 0] table_checkD(2) [OF assms]
  by (simp add: nth_append nth_tl)

lemma table_check_next:
  assumes "table_check poly es m" and "1 \<le> k" and "k < 15"
  shows "lin_apply m (es ! Suc k) = es ! k"
proof -
  obtain j where j: "k = Suc j"
    using assms(2) by (cases k) simp_all
  show ?thesis
    using table_check_chain [OF assms(1), of k] table_checkD(2) [OF assms(1)] assms(3)
    by (simp add: nth_append nth_tl j)
qed

lemma table_check_last:
  assumes "table_check poly es m"
  shows "lin_apply m 1 = es ! 15"
  using table_check_chain [OF assms, of 15] table_checkD(2) [OF assms]
  by (simp add: nth_append nth_tl numeral_eq_Suc)

lemma table_check_entry_1:
  assumes "table_check poly es m"
  shows "es ! 1 = state_at poly 8191"
proof -
  let ?R = "reverse_step poly"
  have bits: "take_bit 17 (es ! 1) = es ! 1"
    by (rule table_check_bits [OF assms]) simp
  have "(?R ^^ 8192) (es ! 1) = ?R 1"
    by (simp only: table_check_power [OF assms bits] table_check_first [OF assms])
  moreover have "(?R ^^ 8192) (es ! 1) = ?R ((?R ^^ 8191) (es ! 1))"
    by (simp add: numeral_eq_Suc)
  ultimately have "forward_step poly (?R ((?R ^^ 8191) (es ! 1))) = forward_step poly (?R 1)"
    by (simp only:)
  then have "(?R ^^ 8191) (es ! 1) = state_at poly 0"
    by (simp only: forward_reverse reverse_pow_take_bit [OF bits] take_bit_17_one state_at_0)
  with bits have "es ! 1 = state_at poly (8191 + 0)"
    by (rule reverse_pow_eq_state)
  then show ?thesis by simp
qed

lemma table_check_entries:
  assumes tc: "table_check poly es m" and k: "1 \<le> k" "k \<le> 15"
  shows "es ! k = state_at poly (8192 * k - 1)"
  using k
proof (induction k rule: nat_induct_at_least)
  case base
  show ?case using table_check_entry_1 [OF tc] by simp
next
  case (Suc k)
  have bits: "take_bit 17 (es ! Suc k) = es ! Suc k"
    by (rule table_check_bits [OF tc]) (use Suc.prems in simp)
  have k15: "k < 15"
    using Suc.prems by simp
  have "(reverse_step poly ^^ 8192) (es ! Suc k) = lin_apply m (es ! Suc k)"
    by (rule table_check_power [OF tc bits])
  also have "\<dots> = es ! k"
    by (rule table_check_next [OF tc Suc.hyps k15])
  also have "es ! k = state_at poly (8192 * k - 1)"
    using Suc.IH k15 by simp
  finally have "es ! Suc k = state_at poly (8192 + (8192 * k - 1))"
    by (rule reverse_pow_eq_state [OF bits])
  moreover have "8192 + (8192 * k - 1) = 8192 * Suc k - 1"
    using Suc.hyps by simp
  ultimately show ?case by (simp only:)
qed

lemma table_check_period:
  assumes tc: "table_check poly es m"
  shows "state_at poly 131071 = 1"
proof -
  have "(reverse_step poly ^^ 8192) 1 = es ! 15"
    by (simp only: table_check_power [OF tc take_bit_17_one] table_check_last [OF tc])
  also have "es ! 15 = state_at poly (8192 * 15 - 1)"
    by (rule table_check_entries [OF tc]) simp_all
  finally have "1 = state_at poly (8192 + (8192 * 15 - 1))"
    by (rule reverse_pow_eq_state [OF take_bit_17_one])
  then show ?thesis by simp
qed


subsection \<open>The four rows of the table pass the check\<close>

lemma upt_0_17: "[0..<17] = 0 # 1 # [2..<17]"
  by (simp add: upt_conv_Cons)

lemma lin_square_iter_numeral:
  "lin_square_iter (numeral n) cs = lin_square_iter (pred_numeral n) (lin_square cs)"
  by (simp add: numeral_eq_Suc)

lemmas table_check_eval =
  table_check_def polynomials_def end_buffers_def reverse_8192_def
  lin_square_iter_numeral lin_square_def lin_cols_def reverse_step_def forward_step_def
  parity_loop_def upt_0_17

lemma table_check_0: "table_check (polynomials ! 0) (end_buffers ! 0) (reverse_8192 ! 0)"
  by (simp add: table_check_eval)

lemma table_check_1: "table_check (polynomials ! 1) (end_buffers ! 1) (reverse_8192 ! 1)"
  by (simp add: table_check_eval)

lemma table_check_2: "table_check (polynomials ! 2) (end_buffers ! 2) (reverse_8192 ! 2)"
  by (simp add: table_check_eval)

lemma table_check_3: "table_check (polynomials ! 3) (end_buffers ! 3) (reverse_8192 ! 3)"
  by (simp add: table_check_eval)

lemma tables_ok:
  assumes "p < 4"
  shows "table_check (polynomials ! p) (end_buffers ! p) (reverse_8192 ! p)"
proof -
  from assms consider "p = 0" | "p = 1" | "p = 2" | "p = 3"
    by linarith
  then show ?thesis
    by cases (simp_all only: table_check_0 table_check_1 table_check_2 table_check_3)
qed


section \<open>The loop of \<^verbatim>\<open>reverse_count_p\<close>\<close>

subsection \<open>Table accesses\<close>

lemma take_bit_17_iff: "take_bit 17 x = x \<longleftrightarrow> x < 2 ^ 17" for x :: u32
  by (simp add: take_bit_eq_mask mask_eq_iff_w2p word_size)

lemma length_polynomials: "length polynomials = 4"
  by (simp add: polynomials_def)

lemma length_end_buffers: "length end_buffers = 4"
  by (simp add: end_buffers_def)

lemma length_end_buffers_row: "p < 4 \<Longrightarrow> length (end_buffers ! p) = 16"
  by (rule table_checkD(2) [OF tables_ok])

lemma polynomial_at_Inr:
  "unat index < 4 \<Longrightarrow> polynomial_at index = Inr (polynomials ! unat index)"
  by (simp add: polynomial_at_def length_polynomials)

lemma polynomial_at_Inl:
  "\<not> unat index < 4 \<Longrightarrow> polynomial_at index = Inl OutOfBounds"
  by (simp add: polynomial_at_def length_polynomials)

lemma end_buffer_at_Inr:
  "unat index < 4 \<Longrightarrow> unat idx < 16 \<Longrightarrow>
   end_buffer_at index idx = Inr (end_buffers ! unat index ! unat idx)"
  by (simp add: end_buffer_at_def length_end_buffers length_end_buffers_row)

lemma end_buffer_at_Inl:
  "\<not> unat index < 4 \<Longrightarrow> end_buffer_at index idx = Inl OutOfBounds"
  by (simp add: end_buffer_at_def length_end_buffers)

lemma end_buffer_at_seed:
  "unat index < 4 \<Longrightarrow> end_buffer_at index 0 = Inr 1"
  using end_buffer_at_Inr [of index 0] table_checkD(3) [OF tables_ok, of "unat index"]
  by simp

lemma unat_scan_index: "j < 16 \<Longrightarrow> unat (of_nat j :: u8) = j"
  by (simp add: unat_of_nat)

lemma ucast_scan_index: "j < 16 \<Longrightarrow> (ucast (of_nat j :: u8) :: u32) = of_nat j"
  by (simp add: unsigned_of_nat take_bit_nat_eq_self)

lemma xor_eq_0_iff: "x XOR y = 0 \<longleftrightarrow> x = y" for x y :: u32
proof
  assume "x XOR y = 0"
  then have "x XOR (x XOR y) = x" by simp
  then show "x = y" by (simp add: xor.assoc [symmetric])
next
  assume "x = y"
  then show "x XOR y = 0" by simp
qed

subsection \<open>The scan of the saved states\<close>

lemma checkpoint_scan_miss:
  assumes "unat index < 4"
    and "\<forall>idx\<in>set idxs. unat idx < 16 \<and> end_buffers ! unat index ! unat idx \<noteq> buffer"
  shows "checkpoint_scan index idxs (count, buffer) = Inr (count, buffer)"
  using assms(2)
proof (induction idxs)
  case Nil
  show ?case by simp
next
  case (Cons idx idxs)
  then show ?case
    by (auto simp add: end_buffer_at_Inr [OF assms(1)] xor_eq_0_iff)
qed

lemma checkpoint_scan_hit:
  assumes "unat index < 4"
    and "\<forall>idx\<in>set pre. unat idx < 16 \<and> end_buffers ! unat index ! unat idx \<noteq> buffer"
    and "unat k < 16" and "end_buffers ! unat index ! unat k = buffer"
    and "\<forall>idx\<in>set post. unat idx < 16 \<and> end_buffers ! unat index ! unat idx \<noteq> 1"
  shows "checkpoint_scan index (pre @ k # post) (count, buffer)
           = Inr (count + 8192 * ucast k - 1, 1)"
  using assms(2)
proof (induction pre)
  case Nil
  show ?case
    using checkpoint_scan_miss [OF assms(1) assms(5)]
    by (simp add: end_buffer_at_Inr [OF assms(1) assms(3)] assms(4) end_buffer_at_seed [OF assms(1)])
next
  case (Cons idx pre)
  then show ?case
    by (auto simp add: end_buffer_at_Inr [OF assms(1)] xor_eq_0_iff)
qed

lemma scan_indices_split:
  assumes "1 \<le> k" and "k \<le> 15"
  shows "scan_indices = map of_nat [1..<k] @ of_nat k # map of_nat [Suc k..<16]"
proof -
  have "[1..<k + (16 - k)] = [1..<k] @ [k..<k + (16 - k)]"
    using assms(1) by (rule upt_add_eq_append)
  then have "[1..<16] = [1..<k] @ [k..<16]"
    using assms(2) by simp
  also have "[k..<16] = k # [Suc k..<16]"
    using assms by (simp add: upt_conv_Cons)
  finally show ?thesis
    by (simp only: scan_indices_def map_append list.map)
qed

lemma scan_ball:
  assumes "\<forall>j\<in>{a..<b}. P j" and "b \<le> 16"
  shows "\<forall>idx\<in>set (map of_nat [a..<b]). unat (idx::u8) < 16 \<and> P (unat idx)"
proof
  fix idx :: u8
  assume "idx \<in> set (map of_nat [a..<b])"
  then obtain j where j: "idx = of_nat j" "j \<in> {a..<b}"
    by auto
  then have "j < 16"
    using assms(2) by simp
  then have "unat idx = j"
    unfolding j(1) by (rule unat_scan_index)
  with j(2) assms \<open>j < 16\<close> show "unat idx < 16 \<and> P (unat idx)"
    by simp
qed

lemma scan_miss:
  assumes "unat index < 4"
    and "\<forall>j\<in>{1..15}. end_buffers ! unat index ! j \<noteq> buffer"
  shows "checkpoint_scan index scan_indices (count, buffer) = Inr (count, buffer)"
  unfolding scan_indices_def
proof (rule checkpoint_scan_miss [OF assms(1)], rule scan_ball)
  show "\<forall>j\<in>{1..<16}. end_buffers ! unat index ! j \<noteq> buffer"
    using assms(2) by simp
qed simp

lemma scan_hit:
  assumes "unat index < 4" and "1 \<le> k" and "k \<le> 15"
    and "end_buffers ! unat index ! k = buffer"
    and "\<forall>j\<in>{1..15}. j \<noteq> k \<longrightarrow> end_buffers ! unat index ! j \<noteq> buffer"
    and "\<forall>j\<in>{1..15}. end_buffers ! unat index ! j \<noteq> 1"
  shows "checkpoint_scan index scan_indices (count, buffer)
           = Inr (count + 8192 * of_nat k - 1, 1)"
proof -
  have k16: "k < 16" using assms(3) by simp
  have "checkpoint_scan index (map of_nat [1..<k] @ of_nat k # map of_nat [Suc k..<16])
          (count, buffer) = Inr (count + 8192 * ucast (of_nat k :: u8) - 1, 1)"
  proof (rule checkpoint_scan_hit [OF assms(1)])
    show "\<forall>idx::u8\<in>set (map of_nat [1..<k]).
            unat idx < 16 \<and> end_buffers ! unat index ! unat idx \<noteq> buffer"
    proof (rule scan_ball [where P = "\<lambda>j. end_buffers ! unat index ! j \<noteq> buffer"])
      show "\<forall>j\<in>{1..<k}. end_buffers ! unat index ! j \<noteq> buffer"
        using assms(3,5) by simp
      show "k \<le> 16"
        using k16 by simp
    qed
    show "unat (of_nat k :: u8) < 16"
      using k16 by (simp add: unat_scan_index)
    show "end_buffers ! unat index ! unat (of_nat k :: u8) = buffer"
      using k16 assms(4) by (simp add: unat_scan_index)
    show "\<forall>idx::u8\<in>set (map of_nat [Suc k..<16]).
            unat idx < 16 \<and> end_buffers ! unat index ! unat idx \<noteq> 1"
    proof (rule scan_ball [where P = "\<lambda>j. end_buffers ! unat index ! j \<noteq> 1"])
      show "\<forall>j\<in>{Suc k..<16}. end_buffers ! unat index ! j \<noteq> 1"
        using assms(2,6) by simp
    qed simp
  qed
  then show ?thesis
    by (simp only: scan_indices_split [OF assms(2,3)] ucast_scan_index [OF k16])
qed


subsection \<open>Where the saved states lie in the sequence\<close>

lemma period_131071: "p < 4 \<Longrightarrow> state_at (polynomials ! p) 131071 = 1"
  by (rule table_check_period [OF tables_ok])

lemma first_step_moves: "p < 4 \<Longrightarrow> state_at (polynomials ! p) 1 \<noteq> 1"
  by (rule table_check_first_step [OF tables_ok])

lemma entry_position:
  "p < 4 \<Longrightarrow> 1 \<le> k \<Longrightarrow> k \<le> 15 \<Longrightarrow>
   end_buffers ! p ! k = state_at (polynomials ! p) (8192 * k - 1)"
  by (rule table_check_entries [OF tables_ok])

lemma state_inj:
  "p < 4 \<Longrightarrow> a < 131071 \<Longrightarrow> b < 131071 \<Longrightarrow>
   state_at (polynomials ! p) a = state_at (polynomials ! p) b \<Longrightarrow> a = b"
  by (rule state_at_inj [OF period_131071 first_step_moves])

lemma state_not_seed:
  "p < 4 \<Longrightarrow> 0 < n \<Longrightarrow> n < 131071 \<Longrightarrow> state_at (polynomials ! p) n \<noteq> 1"
  by (rule state_at_no_return [OF period_131071 first_step_moves])

lemma state_eq_entry:
  assumes "p < 4" and "n < 131071" and "1 \<le> k" and "k \<le> 15"
    and "state_at (polynomials ! p) n = end_buffers ! p ! k"
  shows "n = 8192 * k - 1"
proof (rule state_inj [OF assms(1,2)])
  show "8192 * k - 1 < 131071"
    using assms(4) by simp
  show "state_at (polynomials ! p) n = state_at (polynomials ! p) (8192 * k - 1)"
    using assms(5) by (simp only: entry_position [OF assms(1,3,4)])
qed

lemma entry_not_seed:
  assumes "p < 4" and "1 \<le> k" and "k \<le> 15"
  shows "end_buffers ! p ! k \<noteq> 1"
  unfolding entry_position [OF assms]
  by (rule state_not_seed [OF assms(1)]) (use assms in simp_all)

lemma entries_distinct:
  assumes "p < 4" and "1 \<le> j" and "j \<le> 15" and "1 \<le> k" and "k \<le> 15" and "j \<noteq> k"
  shows "end_buffers ! p ! j \<noteq> end_buffers ! p ! k"
proof
  assume "end_buffers ! p ! j = end_buffers ! p ! k"
  then have "state_at (polynomials ! p) (8192 * j - 1) = end_buffers ! p ! k"
    by (simp only: entry_position [OF assms(1,2,3)])
  moreover have "8192 * j - 1 < (131071::nat)"
    using assms(3) by simp
  ultimately have "8192 * j - 1 = 8192 * k - 1"
    using state_eq_entry [OF assms(1) _ assms(4,5), of "8192 * j - 1"] by simp
  with assms show False by simp
qed

subsection \<open>The body of the loop\<close>

lemma loop_body_hit:
  assumes "unat index < 4" and "1 \<le> k" and "k \<le> 15"
    and "reverse_step (polynomials ! unat index) buffer = end_buffers ! unat index ! k"
  shows "loop_body index (count, buffer) = Inr (count + 1 + 8192 * of_nat k - 1, 1)"
proof -
  have "checkpoint_scan index scan_indices
          (count + 1, reverse_step (polynomials ! unat index) buffer)
        = Inr (count + 1 + 8192 * of_nat k - 1, 1)"
  proof (rule scan_hit [OF assms(1,2,3)])
    show "end_buffers ! unat index ! k = reverse_step (polynomials ! unat index) buffer"
      by (rule assms(4) [symmetric])
    show "\<forall>j\<in>{1..15}. j \<noteq> k \<longrightarrow>
            end_buffers ! unat index ! j \<noteq> reverse_step (polynomials ! unat index) buffer"
      unfolding assms(4) using entries_distinct [OF assms(1) _ _ assms(2,3)] by simp
    show "\<forall>j\<in>{1..15}. end_buffers ! unat index ! j \<noteq> 1"
      using entry_not_seed [OF assms(1)] by simp
  qed
  then show ?thesis
    by (simp add: loop_body_def polynomial_at_Inr [OF assms(1)])
qed

lemma loop_body_miss:
  assumes "unat index < 4"
    and "\<forall>k\<in>{1..15}. reverse_step (polynomials ! unat index) buffer \<noteq> end_buffers ! unat index ! k"
  shows "loop_body index (count, buffer)
           = Inr (count + 1, reverse_step (polynomials ! unat index) buffer)"
proof -
  have "checkpoint_scan index scan_indices
          (count + 1, reverse_step (polynomials ! unat index) buffer)
        = Inr (count + 1, reverse_step (polynomials ! unat index) buffer)"
    by (rule scan_miss [OF assms(1)]) (use assms(2) in \<open>simp add: eq_commute\<close>)
  then show ?thesis
    by (simp add: loop_body_def polynomial_at_Inr [OF assms(1)])
qed

subsection \<open>The loop on a state of the sequence\<close>

lemma while_fuel_seed:
  "unat index < 4 \<Longrightarrow> while_fuel f index (count, 1) = Some (Inr count)"
  by (cases f) (simp_all add: end_buffer_at_seed)

lemma while_fuel_step:
  assumes "unat index < 4" and "buffer \<noteq> 1" and "loop_body index (count, buffer) = Inr s"
  shows "while_fuel (Suc f) index (count, buffer) = while_fuel f index s"
  using assms by (simp add: end_buffer_at_seed)

lemma checkpoint_arith:
  assumes "Suc n < 131071" and "Suc n mod 8192 = 0"
  shows "1 \<le> Suc n div 8192" and "Suc n div 8192 \<le> 15" and "n = 8192 * (Suc n div 8192) - 1"
proof -
  from assms(2) have "8192 dvd Suc n"
    by (simp only: dvd_eq_mod_eq_0)
  then obtain q where q: "Suc n = 8192 * q" ..
  then have "Suc n div 8192 = q"
    by simp
  moreover have "1 \<le> q" "q \<le> 15" "n = 8192 * q - 1"
    using q assms(1) by simp_all
  ultimately show "1 \<le> Suc n div 8192" and "Suc n div 8192 \<le> 15"
    and "n = 8192 * (Suc n div 8192) - 1"
    by simp_all
qed

lemma while_fuel_state:
  assumes "unat index < 4" and "n < 131071"
    and "(if n < 8192 then n else n mod 8192 + 1) \<le> f"
  shows "while_fuel f index (count, state_at (polynomials ! unat index) n)
           = Some (Inr (count + of_nat n))"
  using assms(2,3)
proof (induction n arbitrary: f count)
  case 0
  show ?case
    by (simp add: state_at_0 while_fuel_seed [OF assms(1)])
next
  case (Suc n)
  let ?poly = "polynomials ! unat index"
  from Suc.prems obtain f' where f: "f = Suc f'"
    by (cases f) (simp_all split: if_splits)
  have ne: "state_at ?poly (Suc n) \<noteq> 1"
    by (rule state_not_seed [OF assms(1)]) (use Suc.prems in simp_all)
  have rev: "reverse_step ?poly (state_at ?poly (Suc n)) = state_at ?poly n"
    by (rule reverse_state_at)
  show ?case
  proof (cases "Suc n mod 8192 = 0")
    case True
    define k where "k = Suc n div 8192"
    have k: "1 \<le> k" "k \<le> 15" "n = 8192 * k - 1"
      unfolding k_def using checkpoint_arith [OF Suc.prems(1) True] by simp_all
    have "reverse_step ?poly (state_at ?poly (Suc n)) = end_buffers ! unat index ! k"
      unfolding rev entry_position [OF assms(1) k(1,2)] using k(3) by simp
    then have "loop_body index (count, state_at ?poly (Suc n))
        = Inr (count + 1 + 8192 * of_nat k - 1, 1)"
      by (rule loop_body_hit [OF assms(1) k(1,2)])
    then have "while_fuel f index (count, state_at ?poly (Suc n))
        = while_fuel f' index (count + 1 + 8192 * of_nat k - 1, 1)"
      unfolding f by (rule while_fuel_step [OF assms(1) ne])
    also have "\<dots> = Some (Inr (count + 1 + 8192 * of_nat k - 1))"
      by (rule while_fuel_seed [OF assms(1)])
    also have "count + 1 + 8192 * of_nat k - 1 = count + of_nat (Suc n)"
      using k(1,3) by simp
    finally show ?thesis .
  next
    case False
    have "\<forall>k\<in>{1..15}. reverse_step ?poly (state_at ?poly (Suc n)) \<noteq> end_buffers ! unat index ! k"
    proof
      fix k :: nat
      assume "k \<in> {1..15}"
      then have k: "1 \<le> k" "k \<le> 15" by simp_all
      show "reverse_step ?poly (state_at ?poly (Suc n)) \<noteq> end_buffers ! unat index ! k"
      proof
        assume "reverse_step ?poly (state_at ?poly (Suc n)) = end_buffers ! unat index ! k"
        then have "state_at ?poly n = end_buffers ! unat index ! k"
          by (simp only: rev)
        moreover have "n < 131071"
          using Suc.prems by simp
        ultimately have "n = 8192 * k - 1"
          using state_eq_entry [OF assms(1) _ k, of n] by simp
        with k have "Suc n mod 8192 = 0" by simp
        with False show False ..
      qed
    qed
    then have "loop_body index (count, state_at ?poly (Suc n))
        = Inr (count + 1, reverse_step ?poly (state_at ?poly (Suc n)))"
      by (rule loop_body_miss [OF assms(1)])
    then have "while_fuel f index (count, state_at ?poly (Suc n))
        = while_fuel f' index (count + 1, state_at ?poly n)"
      unfolding f rev by (rule while_fuel_step [OF assms(1) ne])
    also have "\<dots> = Some (Inr (count + 1 + of_nat n))"
    proof (rule Suc.IH)
      show "n < 131071" using Suc.prems by simp
      show "(if n < 8192 then n else n mod 8192 + 1) \<le> f'"
        using Suc.prems(2) False unfolding f
        by (auto simp add: mod_Suc split: if_splits)
    qed
    finally show ?thesis by (simp add: ac_simps)
  qed
qed


subsection \<open>The bounded loop and the loop\<close>

lemma while_fuel_sound:
  "while_fuel f index s = Some r \<Longrightarrow> while_loop index s = Some r"
proof (induction f arbitrary: s)
  case 0
  then show ?case
    by (subst while_loop.simps) (auto split: sum.splits if_splits)
next
  case (Suc f)
  then show ?case
    by (subst while_loop.simps) (auto split: sum.splits if_splits)
qed

lemma and_1fffff: "b AND (0x0001FFFFF::u32) = take_bit 21 b"
proof -
  have "(0x0001FFFFF::u32) = mask 21" by (simp add: mask_eq_exp_minus_1)
  then show ?thesis by (simp only: take_bit_eq_mask)
qed

lemma mask_state: "state_at poly n AND 0x0001FFFFF = state_at poly n"
proof -
  have "take_bit 21 (take_bit 17 (state_at poly n)) = take_bit 17 (state_at poly n)"
    by (simp only: take_bit_take_bit) simp
  then show ?thesis
    by (simp only: and_1fffff state_at_take_bit)
qed

lemma reverse_count_p_fuel:
  assumes "unat index < 4" and "n < 131071"
  shows "while_fuel 8192 index (0, state_at (polynomials ! unat index) n AND 0x0001FFFFF)
           = Some (Inr (of_nat n))"
proof -
  have "Suc (n mod 8192) \<le> 8192"
    by (rule Suc_leI) (rule mod_less_divisor, simp)
  then have "(if n < 8192 then n else n mod 8192 + 1) \<le> 8192"
    by (simp del: mod_less_divisor)
  then have "while_fuel 8192 index (0, state_at (polynomials ! unat index) n)
      = Some (Inr (0 + of_nat n))"
    by (rule while_fuel_state [OF assms])
  then show ?thesis
    by (simp only: mask_state add_0)
qed

lemma reverse_count_p_state:
  assumes "unat index < 4" and "n < 131071"
  shows "reverse_count_p index (state_at (polynomials ! unat index) n) = Some (Inr (of_nat n))"
  unfolding reverse_count_p_def
  by (rule while_fuel_sound) (rule reverse_count_p_fuel [OF assms])

lemma reverse_count_p_after_entry:
  assumes "unat index < 4" and "k \<le> 15"
  shows "reverse_count_p index (state_at (polynomials ! unat index) (8192 * k))
           = Some (Inr (8192 * of_nat k))"
proof -
  have "reverse_count_p index (state_at (polynomials ! unat index) (8192 * k))
      = Some (Inr (of_nat (8192 * k)))"
    by (rule reverse_count_p_state [OF assms(1)]) (use assms(2) in simp)
  then show ?thesis by simp
qed


subsection \<open>Unfolding the loop\<close>

lemma while_loop_seed:
  "unat index < 4 \<Longrightarrow> while_loop index (count, 1) = Some (Inr count)"
  by (subst while_loop.simps) (simp add: end_buffer_at_seed)

lemma while_loop_step:
  assumes "unat index < 4" and "buffer \<noteq> 1" and "loop_body index (count, buffer) = Inr s"
  shows "while_loop index (count, buffer) = while_loop index s"
  using assms by (subst while_loop.simps) (simp add: end_buffer_at_seed)

lemma while_loop_out_of_bounds:
  "\<not> unat index < 4 \<Longrightarrow> while_loop index s = Some (Inl OutOfBounds)"
  by (subst while_loop.simps) (simp add: end_buffer_at_Inl)

lemma loop_body_total:
  assumes "unat index < 4"
  shows "\<exists>count' buffer'. loop_body index (count, buffer) = Inr (count', buffer')
           \<and> take_bit 17 buffer' = buffer'"
proof (cases "\<exists>k\<in>{1..15}. reverse_step (polynomials ! unat index) buffer
                = end_buffers ! unat index ! k")
  case True
  then obtain k where "1 \<le> k" "k \<le> 15"
    and "reverse_step (polynomials ! unat index) buffer = end_buffers ! unat index ! k"
    by auto
  with assms have "loop_body index (count, buffer) = Inr (count + 1 + 8192 * of_nat k - 1, 1)"
    by (rule loop_body_hit)
  then show ?thesis
    using take_bit_17_one by blast
next
  case False
  then have "loop_body index (count, buffer)
      = Inr (count + 1, reverse_step (polynomials ! unat index) buffer)"
    using assms by (intro loop_body_miss) simp_all
  then show ?thesis
    using reverse_step_take_bit by blast
qed

lemma while_loop_no_error:
  assumes "unat index < 4" and "while_loop index s = Some r"
  shows "\<exists>count. r = Inr count"
proof -
  have "unat index < 4 \<longrightarrow> (\<exists>count. r = Inr count)"
    using assms(2)
  proof (induction rule: while_loop.raw_induct [rotated 1, consumes 1])
    case (1 loop index s r)
    show ?case
    proof
      assume idx: "unat index < 4"
      obtain count buffer where s: "s = (count, buffer)"
        by (cases s)
      obtain count' buffer' where body: "loop_body index (count, buffer) = Inr (count', buffer')"
        using loop_body_total [OF idx, of count buffer] by blast
      show "\<exists>count. r = Inr count"
      proof (cases "buffer = 1")
        case True
        with 1(2) idx show ?thesis
          by (auto simp add: s end_buffer_at_seed)
      next
        case False
        with 1(2) idx have "loop index (count', buffer') = Some r"
          by (simp add: s end_buffer_at_seed body)
        then have "unat index < 4 \<longrightarrow> (\<exists>count. r = Inr count)"
          by (rule 1(1))
        with idx show ?thesis by (rule rev_mp)
      qed
    qed
  qed
  with assms(1) show ?thesis by (rule rev_mp)
qed

subsection \<open>A checkpoint match after some steps\<close>

lemma while_loop_match:
  assumes idx: "unat index < 4" and k: "1 \<le> k" "k \<le> 15"
    and run: "\<forall>j\<le>n. (reverse_step (polynomials ! unat index) ^^ j) buffer \<noteq> 1"
    and miss: "\<forall>j. 1 \<le> j \<and> j \<le> n \<longrightarrow> (\<forall>i\<in>{1..15}.
        (reverse_step (polynomials ! unat index) ^^ j) buffer \<noteq> end_buffers ! unat index ! i)"
    and hit: "(reverse_step (polynomials ! unat index) ^^ Suc n) buffer
        = end_buffers ! unat index ! k"
  shows "while_loop index (count, buffer)
           = Some (Inr (count + of_nat (Suc n) + 8192 * of_nat k - 1))"
  using run miss hit
proof (induction n arbitrary: count buffer)
  case 0
  have "buffer \<noteq> 1"
    using "0.prems"(1) by simp
  moreover have "loop_body index (count, buffer) = Inr (count + 1 + 8192 * of_nat k - 1, 1)"
    by (rule loop_body_hit [OF idx k]) (use "0.prems"(3) in simp)
  ultimately have "while_loop index (count, buffer)
      = while_loop index (count + 1 + 8192 * of_nat k - 1, 1)"
    by (rule while_loop_step [OF idx])
  then show ?case
    by (simp add: while_loop_seed [OF idx])
next
  case (Suc n)
  let ?R = "reverse_step (polynomials ! unat index)"
  have shift: "(?R ^^ j) (?R buffer) = (?R ^^ Suc j) buffer" for j
    by (simp add: funpow_swap1)
  have "buffer \<noteq> 1"
    using Suc.prems(1) by (auto dest: spec [of _ 0])
  moreover have "loop_body index (count, buffer) = Inr (count + 1, ?R buffer)"
  proof (rule loop_body_miss [OF idx])
    show "\<forall>i\<in>{1..15}. ?R buffer \<noteq> end_buffers ! unat index ! i"
      using Suc.prems(2) by (auto dest!: spec [of _ 1])
  qed
  ultimately have "while_loop index (count, buffer) = while_loop index (count + 1, ?R buffer)"
    by (rule while_loop_step [OF idx])
  also have "\<dots> = Some (Inr (count + 1 + of_nat (Suc n) + 8192 * of_nat k - 1))"
  proof (rule Suc.IH)
    show "\<forall>j\<le>n. (?R ^^ j) (?R buffer) \<noteq> 1"
    proof (intro allI impI)
      fix j
      assume "j \<le> n"
      then have "Suc j \<le> Suc n" by simp
      with Suc.prems(1) have "(?R ^^ Suc j) buffer \<noteq> 1" by blast
      then show "(?R ^^ j) (?R buffer) \<noteq> 1" unfolding shift .
    qed
    show "\<forall>j. 1 \<le> j \<and> j \<le> n \<longrightarrow>
        (\<forall>i\<in>{1..15}. (?R ^^ j) (?R buffer) \<noteq> end_buffers ! unat index ! i)"
    proof (intro allI impI)
      fix j
      assume "1 \<le> j \<and> j \<le> n"
      then have "1 \<le> Suc j \<and> Suc j \<le> Suc n" by simp
      with Suc.prems(2)
      have "\<forall>i\<in>{1..15}. (?R ^^ Suc j) buffer \<noteq> end_buffers ! unat index ! i" by blast
      then show "\<forall>i\<in>{1..15}. (?R ^^ j) (?R buffer) \<noteq> end_buffers ! unat index ! i"
        unfolding shift .
    qed
    show "(?R ^^ Suc n) (?R buffer) = end_buffers ! unat index ! k"
      using Suc.prems(3) unfolding shift .
  qed
  finally show ?case
    by (simp add: ac_simps)
qed

subsection \<open>The reverse step as a bijection\<close>

lemma reverse_step_bij: "bij_betw (reverse_step poly) {x. x < 2 ^ 17} {x. x < 2 ^ 17}"
proof (rule bij_betw_byWitness [where f' = "forward_step poly"])
  show "\<forall>a\<in>{x. x < 2 ^ 17}. forward_step poly (reverse_step poly a) = a"
    by (simp only: forward_reverse mem_Collect_eq take_bit_17_iff [symmetric]) simp
  show "\<forall>a'\<in>{x. x < 2 ^ 17}. reverse_step poly (forward_step poly a') = a'"
    by (simp only: reverse_forward mem_Collect_eq take_bit_17_iff [symmetric]) simp
  show "reverse_step poly ` {x. x < 2 ^ 17} \<subseteq> {x. x < 2 ^ 17}"
    using reverse_step_take_bit [of poly] by (auto simp only: take_bit_17_iff [symmetric])
  show "forward_step poly ` {x. x < 2 ^ 17} \<subseteq> {x. x < 2 ^ 17}"
    using forward_step_take_bit [of poly] by (auto simp only: take_bit_17_iff [symmetric])
qed


subsection \<open>The zero state\<close>

lemma reverse_step_zero: "reverse_step poly 0 = 0"
  by (rule lin_zero [of "reverse_step poly", OF reverse_step_xor])

lemma reverse_step_zero_low:
  assumes "take_bit 17 buffer = 0"
  shows "reverse_step poly buffer = 0"
  using reverse_step_low [of poly buffer] by (simp only: assms reverse_step_zero)

lemma reverse_pow_zero: "(reverse_step poly ^^ n) 0 = 0"
  by (induction n) (simp_all add: reverse_step_zero)

lemma state_at_nonzero: "state_at poly n \<noteq> 0"
proof (induction n)
  case 0
  show ?case by (simp add: state_at_0)
next
  case (Suc n)
  show ?case
  proof
    assume "state_at poly (Suc n) = 0"
    then have "reverse_step poly (state_at poly (Suc n)) = 0"
      by (simp only: reverse_step_zero)
    then have "state_at poly n = 0"
      by (simp only: reverse_state_at)
    with Suc show False ..
  qed
qed

lemma entry_nonzero:
  assumes "p < 4" and "k < 16"
  shows "end_buffers ! p ! k \<noteq> 0"
proof (cases "k = 0")
  case True
  then show ?thesis
    using table_checkD(3) [OF tables_ok [OF assms(1)]] by simp
next
  case False
  then have "end_buffers ! p ! k = state_at (polynomials ! p) (8192 * k - 1)"
    using assms by (intro entry_position) simp_all
  then show ?thesis
    by (simp only: state_at_nonzero) simp
qed

lemma loop_body_zero:
  assumes "unat index < 4" and "take_bit 17 buffer = 0"
  shows "loop_body index (count, buffer) = Inr (count + 1, 0)"
proof -
  have zero: "reverse_step (polynomials ! unat index) buffer = 0"
    using assms(2) by (rule reverse_step_zero_low)
  have "loop_body index (count, buffer)
      = Inr (count + 1, reverse_step (polynomials ! unat index) buffer)"
  proof (rule loop_body_miss [OF assms(1)])
    show "\<forall>k\<in>{1..15}. reverse_step (polynomials ! unat index) buffer
            \<noteq> end_buffers ! unat index ! k"
    proof
      fix k :: nat
      assume "k \<in> {1..15}"
      then have "k < 16" by simp
      with assms(1) have "end_buffers ! unat index ! k \<noteq> 0"
        by (rule entry_nonzero)
      then show "reverse_step (polynomials ! unat index) buffer \<noteq> end_buffers ! unat index ! k"
        unfolding zero by (rule not_sym)
    qed
  qed
  then show ?thesis
    by (simp only: zero)
qed

lemma zero_low_not_seed: "take_bit 17 buffer = 0 \<Longrightarrow> buffer \<noteq> (1::u32)"
  by auto

lemma while_fuel_zero:
  assumes "unat index < 4" and "take_bit 17 buffer = 0"
  shows "while_fuel n index (count, buffer) = None"
  using assms(2)
proof (induction n arbitrary: count buffer)
  case 0
  then show ?case
    using zero_low_not_seed [of buffer] by (simp add: end_buffer_at_seed [OF assms(1)])
next
  case (Suc n)
  have "while_fuel (Suc n) index (count, buffer) = while_fuel n index (count + 1, 0)"
    by (rule while_fuel_step [OF assms(1) zero_low_not_seed [OF Suc.prems]
          loop_body_zero [OF assms(1) Suc.prems]])
  also have "\<dots> = None"
    by (rule Suc.IH) simp
  finally show ?case .
qed

lemma while_loop_zero:
  assumes "unat index < 4" and "take_bit 17 buffer = 0"
  shows "while_loop index (count, buffer) = None"
proof (rule ccontr)
  assume "while_loop index (count, buffer) \<noteq> None"
  then obtain r where "while_loop index (count, buffer) = Some r"
    by auto
  then have "unat index < 4 \<longrightarrow> take_bit 17 (snd (count, buffer)) \<noteq> 0"
  proof (induction rule: while_loop.raw_induct [rotated 1, consumes 1])
    case (1 loop index s r)
    show ?case
    proof (intro impI notI)
      assume idx: "unat index < 4" and zero: "take_bit 17 (snd s) = 0"
      obtain count buffer where s: "s = (count, buffer)"
        by (cases s)
      from zero have z: "take_bit 17 buffer = 0"
        by (simp add: s)
      from 1(2) have "loop index (count + 1, 0) = Some r"
        using zero_low_not_seed [OF z]
        by (simp add: s end_buffer_at_seed [OF idx] loop_body_zero [OF idx z])
      then have "unat index < 4 \<longrightarrow> take_bit 17 (snd (count + 1, 0::u32)) \<noteq> 0"
        by (rule 1(1))
      with idx show False by simp
    qed
  qed
  with assms show False by simp
qed

subsection \<open>Every state except zero is in the sequence\<close>

lemma on_cycle:
  assumes "p < 4" and "take_bit 17 x = x" and "x \<noteq> 0"
  shows "\<exists>n<131071. x = state_at (polynomials ! p) n"
proof -
  let ?st = "state_at (polynomials ! p)"
  let ?S = "?st ` {0..<131071}"
  have "inj_on ?st {0..<131071}"
    by (rule inj_onI) (rule state_inj [OF assms(1)], simp_all)
  then have "card ?S = 131071"
    by (simp add: card_image)
  moreover have "inj_on (unat :: u32 \<Rightarrow> nat) ?S"
    by (rule inj_onI) (simp add: word_unat_eq_iff)
  ultimately have card: "card (unat ` ?S) = 131071"
    by (simp add: card_image)
  have bound: "0 < unat y \<and> unat y < 131072" if "take_bit 17 y = y" "y \<noteq> 0" for y :: u32
  proof -
    from that(1) have "y < 2 ^ 17"
      by (simp only: take_bit_17_iff)
    then have "unat y < 131072"
      by (simp add: word_less_nat_alt)
    with that(2) show ?thesis
      by (simp add: unat_gt_0)
  qed
  have "unat ` ?S \<subseteq> {1..<131072}"
  proof
    fix m
    assume "m \<in> unat ` ?S"
    then obtain n where "m = unat (?st n)"
      by auto
    then show "m \<in> {1..<131072}"
      using bound [OF state_at_take_bit state_at_nonzero, of "polynomials ! p" n] by simp
  qed
  moreover have "card {1..<131072::nat} = 131071"
    by simp
  ultimately have "unat ` ?S = {1..<131072}"
    using card by (intro card_subset_eq) simp_all
  moreover have "unat x \<in> {1..<131072}"
    using bound [OF assms(2,3)] by simp
  ultimately have "unat x \<in> unat ` ?S"
    by simp
  then obtain y where y: "y \<in> ?S" and "unat x = unat y"
    by auto
  then have "x = y"
    by (simp only: word_unat_eq_iff)
  with y show ?thesis
    by auto
qed

subsection \<open>Bits 17 to 20 of the input\<close>

lemma and_1ffff: "b AND (0x0001FFFF::u32) = take_bit 17 b"
proof -
  have "(0x0001FFFF::u32) = mask 17" by (simp add: mask_eq_exp_minus_1)
  then show ?thesis by (simp only: take_bit_eq_mask)
qed

lemma loop_body_low:
  "loop_body index (count, buffer AND 0x0001FFFF) = loop_body index (count, buffer)"
  by (cases "polynomial_at index") (simp_all add: loop_body_def and_1ffff reverse_step_low)

lemma reverse_count_p_seed_high_bits:
  assumes "unat index < 4"
  shows "reverse_count_p index 0x00020001 = Some (Inr 131071)"
proof -
  let ?poly = "polynomials ! unat index"
  have "reverse_step ?poly 0x00020001 = reverse_step ?poly (take_bit 17 0x00020001)"
    by (simp only: reverse_step_low)
  also have "take_bit 17 (0x00020001::u32) = state_at ?poly (Suc 131070)"
    using period_131071 [OF assms] by simp
  also have "reverse_step ?poly (state_at ?poly (Suc 131070)) = state_at ?poly 131070"
    by (rule reverse_state_at)
  finally have rev: "reverse_step ?poly 0x00020001 = state_at ?poly 131070" .
  have "\<forall>k\<in>{1..15}. reverse_step ?poly 0x00020001 \<noteq> end_buffers ! unat index ! k"
  proof
    fix k :: nat
    assume "k \<in> {1..15}"
    then have k: "1 \<le> k" "k \<le> 15" by simp_all
    show "reverse_step ?poly 0x00020001 \<noteq> end_buffers ! unat index ! k"
    proof
      assume "reverse_step ?poly 0x00020001 = end_buffers ! unat index ! k"
      then have "state_at ?poly 131070 = end_buffers ! unat index ! k"
        by (simp only: rev)
      then have "131070 = 8192 * k - 1"
        using state_eq_entry [OF assms _ k, of 131070] by simp
      then have "8192 * k = 131071"
        using k by simp
      then have "(8192::nat) dvd 131071"
        by (metis dvd_triv_left)
      then show False
        by simp
    qed
  qed
  then have "loop_body index (0, 0x00020001) = Inr (0 + 1, reverse_step ?poly 0x00020001)"
    by (rule loop_body_miss [OF assms])
  then have "while_loop index (0, 0x00020001) = while_loop index (0 + 1, state_at ?poly 131070)"
    unfolding rev by (intro while_loop_step [OF assms]) simp_all
  also have "\<dots> = Some (Inr (0 + 1 + of_nat 131070))"
    by (rule while_fuel_sound [of 8192]) (rule while_fuel_state [OF assms], simp_all)
  finally show ?thesis
    by (simp add: reverse_count_p_def)
qed


lemma low_bits_only:
  assumes "take_bit 17 bits \<noteq> 1 \<or> bits AND 0x0001FFFFF = 1"
  shows "reverse_count_p index bits = reverse_count_p index (bits AND 0x0001FFFF)"
proof (cases "bits AND 0x0001FFFFF = 1")
  case True
  then have "take_bit 17 (take_bit 21 bits) = take_bit 17 1"
    by (simp only: and_1fffff)
  then have "take_bit 21 (take_bit 17 bits) = 1"
    by (simp add: min_def)
  then have "(bits AND 0x0001FFFF) AND 0x0001FFFFF = 1"
    by (simp only: and_1ffff and_1fffff)
  with True show ?thesis
    by (simp only: reverse_count_p_def)
next
  case False
  with assms have low: "take_bit 17 bits \<noteq> 1"
    by simp
  have masked: "(bits AND 0x0001FFFF) AND 0x0001FFFFF = take_bit 17 bits"
    by (simp add: and_1ffff and_1fffff min_def)
  have same: "loop_body index (0, bits AND 0x0001FFFFF) = loop_body index (0, take_bit 17 bits)"
  proof -
    have "take_bit 17 (take_bit 21 bits) = take_bit 17 (take_bit 17 bits)"
      by (simp add: min_def)
    then have "(bits AND 0x0001FFFFF) AND 0x0001FFFF = take_bit 17 bits AND 0x0001FFFF"
      by (simp only: and_1ffff and_1fffff)
    then show ?thesis
      using loop_body_low [of index 0 "bits AND 0x0001FFFFF"]
        loop_body_low [of index 0 "take_bit 17 bits"]
      by simp
  qed
  have "while_loop index (0, bits AND 0x0001FFFFF) = while_loop index (0, take_bit 17 bits)"
  proof (cases "unat index < 4")
    case True
    obtain s where s: "loop_body index (0, take_bit 17 bits) = Inr s"
      using loop_body_total [OF True, of 0 "take_bit 17 bits"] by blast
    have "while_loop index (0, bits AND 0x0001FFFFF) = while_loop index s"
      using True False by (rule while_loop_step) (simp only: same s)
    moreover have "while_loop index (0, take_bit 17 bits) = while_loop index s"
      using True low s by (rule while_loop_step)
    ultimately show ?thesis
      by (simp only:)
  next
    case False
    show ?thesis
      by (simp only: while_loop_out_of_bounds [OF False])
  qed
  then show ?thesis
    by (simp only: reverse_count_p_def masked)
qed


section \<open>The properties of the specification\<close>

text \<open>
  Claim C1 (checkpoint exactness) says that \<^verbatim>\<open>reverse_count_p(p, _end_buffers[p][k])\<close> is
  \<open>8192 * k\<close> for \<open>k = 1, ..., 15\<close>. The saved state \<open>k\<close> is the state \<open>8192 * k - 1\<close>
  steps after the seed, and this is the value returned: for every polynomial index below
  4 and every \<open>k\<close> from 1 to 15, \<open>reverse_count_p\<close> on entry \<open>k\<close> of the row returns
  exactly \<open>8192 * k - 1\<close>.
\<close>

theorem checkpoint_count:
  assumes "unat index < 4" and "1 \<le> k" and "k \<le> 15"
  shows "reverse_count_p index (end_buffers ! unat index ! k) = Some (Inr (8192 * of_nat k - 1))"
proof -
  have "reverse_count_p index (state_at (polynomials ! unat index) (8192 * k - 1))
      = Some (Inr (of_nat (8192 * k - 1)))"
    by (rule reverse_count_p_state [OF assms(1)]) (use assms(3) in simp)
  moreover have "(of_nat (8192 * k - 1) :: u32) = 8192 * of_nat k - 1"
    using assms(2) by simp
  ultimately show ?thesis
    by (simp only: entry_position [OF assms])
qed

theorem checkpoint_count_witness:
  "unat (0::u8) < 4 \<and> (1::nat) \<le> 2 \<and> (2::nat) \<le> 15
   \<and> reverse_count_p 0 (end_buffers ! unat (0::u8) ! 2) = Some (Inr 16383)"
proof -
  have h: "unat (0::u8) < 4" "(1::nat) \<le> 2" "(2::nat) \<le> 15"
    by simp_all
  show ?thesis
    using h checkpoint_count [OF h] by simp
qed

text \<open>
  The claim as stated fails already at polynomial 0 and \<open>k = 1\<close>: the value returned
  on the first saved state is 8191, not 8192.
\<close>

theorem checkpoint_count_counterexample:
  "reverse_count_p 0 (end_buffers ! 0 ! 1) = Some (Inr 8191)
   \<and> reverse_count_p 0 (end_buffers ! 0 ! 1) \<noteq> Some (Inr (8192 * 1))"
proof -
  have "end_buffers ! 0 ! 1 = state_at (polynomials ! 0) 8191"
    using entry_position [of 0 1] by simp
  moreover have "reverse_count_p 0 (state_at (polynomials ! 0) 8191) = Some (Inr 8191)"
    using reverse_count_p_state [of 0 8191] by simp
  ultimately show ?thesis
    by simp
qed

text \<open>
  Claim C2 says that, when the loop leaves because the buffer matches saved state \<open>k\<close>
  after a reverse step, the value returned is \<open>8192 * k - 1\<close> whatever the number of
  reverse steps before the match. Line 118 adds to the counter instead of replacing it:
  for every polynomial index below 4, when the buffer first equals saved state \<open>k\<close>
  (\<open>k\<close> from 1 to 15) after \<open>m\<close> reverse steps, \<open>m\<close> at least 1, none of the states
  before being the seed or a saved state, the value returned is \<open>m + 8192 * k - 1\<close>.
\<close>

theorem match_count:
  assumes "unat index < 4" and "1 \<le> k" and "k \<le> 15" and "1 \<le> m"
    and "\<forall>j<m. (reverse_step (polynomials ! unat index) ^^ j) (bits AND 0x0001FFFFF) \<noteq> 1"
    and "\<forall>j. 1 \<le> j \<and> j < m \<longrightarrow> (\<forall>i\<in>{1..15}.
           (reverse_step (polynomials ! unat index) ^^ j) (bits AND 0x0001FFFFF)
             \<noteq> end_buffers ! unat index ! i)"
    and "(reverse_step (polynomials ! unat index) ^^ m) (bits AND 0x0001FFFFF)
           = end_buffers ! unat index ! k"
  shows "reverse_count_p index bits = Some (Inr (of_nat m + 8192 * of_nat k - 1))"
proof -
  from assms(4) obtain n where m: "m = Suc n"
    by (cases m) simp_all
  have "while_loop index (0, bits AND 0x0001FFFFF)
      = Some (Inr (0 + of_nat (Suc n) + 8192 * of_nat k - 1))"
  proof (rule while_loop_match [OF assms(1,2,3)])
    show "\<forall>j\<le>n. (reverse_step (polynomials ! unat index) ^^ j) (bits AND 0x0001FFFFF) \<noteq> 1"
      using assms(5) unfolding m by (simp add: less_Suc_eq_le)
    show "\<forall>j. 1 \<le> j \<and> j \<le> n \<longrightarrow> (\<forall>i\<in>{1..15}.
           (reverse_step (polynomials ! unat index) ^^ j) (bits AND 0x0001FFFFF)
             \<noteq> end_buffers ! unat index ! i)"
      using assms(6) unfolding m by (simp add: less_Suc_eq_le)
    show "(reverse_step (polynomials ! unat index) ^^ Suc n) (bits AND 0x0001FFFFF)
           = end_buffers ! unat index ! k"
      using assms(7) unfolding m .
  qed
  then show ?thesis
    unfolding reverse_count_p_def m by (simp only: add_0)
qed

theorem match_count_witness:
  "unat (0::u8) < 4
   \<and> reverse_step (polynomials ! unat (0::u8)) (0x0000AB3B AND 0x0001FFFFF)
       = end_buffers ! unat (0::u8) ! 1
   \<and> reverse_count_p 0 0x0000AB3B = Some (Inr 8192)"
proof -
  let ?R = "reverse_step (polynomials ! unat (0::u8))"
  have h1: "unat (0::u8) < 4" "(1::nat) \<le> 1" "(1::nat) \<le> 15" "(1::nat) \<le> 1"
    by simp_all
  have h2: "\<forall>j<1. (?R ^^ j) (0x0000AB3B AND 0x0001FFFFF) \<noteq> 1"
    by simp
  have h3: "\<forall>j. 1 \<le> j \<and> j < 1 \<longrightarrow> (\<forall>i\<in>{1..15}.
      (?R ^^ j) (0x0000AB3B AND 0x0001FFFFF) \<noteq> end_buffers ! unat (0::u8) ! i)"
    by simp
  have h4: "(?R ^^ 1) (0x0000AB3B AND 0x0001FFFFF) = end_buffers ! unat (0::u8) ! 1"
    by (simp add: polynomials_def end_buffers_def reverse_step_def parity_loop_def upt_0_17)
  show ?thesis
    using h1(1) h4 match_count [OF h1 h2 h3 h4] by simp
qed

text \<open>
  The claim as stated fails at polynomial 0 on the input \<open>0x2AB5\<close>: one reverse step
  gives saved state 2, and the value returned is \<open>1 + 2 * 8192 - 1 = 16384\<close>, not
  \<open>2 * 8192 - 1\<close>.
\<close>

theorem match_count_counterexample:
  "reverse_step (polynomials ! 0) (0x00002AB5 AND 0x0001FFFFF) = end_buffers ! 0 ! 2
   \<and> reverse_count_p 0 0x00002AB5 = Some (Inr 16384)
   \<and> reverse_count_p 0 0x00002AB5 \<noteq> Some (Inr (2 * 8192 - 1))"
proof -
  have hit: "reverse_step (polynomials ! 0) (0x00002AB5 AND 0x0001FFFFF) = end_buffers ! 0 ! 2"
    by (simp add: polynomials_def end_buffers_def reverse_step_def parity_loop_def upt_0_17)
  have "while_loop 0 (0, 0x00002AB5 AND 0x0001FFFFF)
      = Some (Inr (0 + of_nat (Suc 0) + 8192 * of_nat 2 - 1))"
    by (rule while_loop_match) (use hit in simp_all)
  then have "reverse_count_p 0 0x00002AB5 = Some (Inr 16384)"
    by (simp add: reverse_count_p_def)
  with hit show ?thesis
    by simp
qed

text \<open>
  Claim C3 (round trip): for every polynomial index below 4 and every \<open>k\<close> from 0 to 15,
  \<open>8192 * k\<close> forward steps from the seed followed by \<open>reverse_count_p\<close> give back
  \<open>8192 * k\<close>; in particular 8192 forward steps under polynomial 0 give 8192. The
  forward step is \<open>forward_step\<close>, the inverse of the reverse transition of the loop.
\<close>

theorem round_trip:
  "(unat index < 4 \<and> k \<le> 15 \<longrightarrow>
      reverse_count_p index ((forward_step (polynomials ! unat index) ^^ (8192 * k)) 1)
        = Some (Inr (8192 * of_nat k)))
   \<and> reverse_count_p 0 ((forward_step (polynomials ! 0) ^^ 8192) 1) = Some (Inr 8192)"
proof
  show "unat index < 4 \<and> k \<le> 15 \<longrightarrow>
      reverse_count_p index ((forward_step (polynomials ! unat index) ^^ (8192 * k)) 1)
        = Some (Inr (8192 * of_nat k))"
    using reverse_count_p_after_entry [of index k] by (simp add: state_at_def)
  show "reverse_count_p 0 ((forward_step (polynomials ! 0) ^^ 8192) 1) = Some (Inr 8192)"
    using reverse_count_p_after_entry [of 0 1] by (simp add: state_at_def)
qed

theorem round_trip_witness:
  "unat (2::u8) < 4 \<and> (3::nat) \<le> 15
   \<and> reverse_count_p 2 ((forward_step (polynomials ! 2) ^^ 24576) 1) = Some (Inr 24576)"
  using round_trip [of 2 3] by simp

text \<open>
  Claim C4 (seed identity): for every polynomial index below 4, \<open>reverse_count_p\<close> on the
  seed state 1 returns 0.
\<close>

theorem seed_identity:
  assumes "unat index < 4"
  shows "reverse_count_p index 1 = Some (Inr 0)"
  using reverse_count_p_state [OF assms, of 0] by (simp add: state_at_0)

theorem seed_identity_witness:
  "unat (3::u8) < 4 \<and> reverse_count_p 3 1 = Some (Inr 0)"
proof -
  have h: "unat (3::u8) < 4" by simp
  show ?thesis using h seed_identity [OF h] by simp
qed

text \<open>
  Claim C5: for every polynomial index below 4, the reverse transition of the loop
  body is a bijection on the 17-bit register states, and \<open>forward_step\<close> is its inverse:
  the two compositions are the identity on every state below \<open>2 ^ 17\<close>.
\<close>

theorem reverse_step_bijection:
  "unat index < 4 \<longrightarrow>
     bij_betw (reverse_step (polynomials ! unat index)) {x. x < 2 ^ 17} {x. x < 2 ^ 17}
     \<and> (\<forall>x. x < 2 ^ 17 \<longrightarrow>
          forward_step (polynomials ! unat index) (reverse_step (polynomials ! unat index) x) = x
          \<and> reverse_step (polynomials ! unat index) (forward_step (polynomials ! unat index) x) = x)"
proof (intro impI conjI allI)
  show "bij_betw (reverse_step (polynomials ! unat index)) {x. x < 2 ^ 17} {x. x < 2 ^ 17}"
    by (rule reverse_step_bij)
next
  fix x :: u32
  assume "x < 2 ^ 17"
  then have x: "take_bit 17 x = x"
    by (simp only: take_bit_17_iff)
  show "forward_step (polynomials ! unat index) (reverse_step (polynomials ! unat index) x) = x"
    by (simp only: forward_reverse x)
  show "reverse_step (polynomials ! unat index) (forward_step (polynomials ! unat index) x) = x"
    by (simp only: reverse_forward x)
qed

theorem reverse_step_bijection_witness:
  "unat (1::u8) < 4 \<and> (0x00012345::u32) < 2 ^ 17
   \<and> forward_step (polynomials ! unat (1::u8))
        (reverse_step (polynomials ! unat (1::u8)) 0x00012345) = 0x00012345
   \<and> reverse_step (polynomials ! unat (1::u8))
        (forward_step (polynomials ! unat (1::u8)) 0x00012345) = 0x00012345"
proof -
  have h: "unat (1::u8) < 4" "(0x00012345::u32) < 2 ^ 17"
    by simp_all
  from reverse_step_bijection [of 1] h(1)
  have "\<forall>x. x < 2 ^ 17 \<longrightarrow>
      forward_step (polynomials ! unat (1::u8)) (reverse_step (polynomials ! unat (1::u8)) x) = x
      \<and> reverse_step (polynomials ! unat (1::u8)) (forward_step (polynomials ! unat (1::u8)) x) = x"
    by blast
  with h show ?thesis
    by blast
qed

text \<open>
  Claim C6 (bounded work): for every polynomial index below 4 and every input whose
  masked buffer is a state of the sequence that starts at the seed, the loop leaves
  after at most 8192 runs of its body (\<open>while_fuel 8192\<close> is not \<open>None\<close>), and this is
  the value that \<open>reverse_count_p\<close> returns.
\<close>

theorem bounded_work:
  assumes "unat index < 4"
    and "bits AND 0x0001FFFFF = state_at (polynomials ! unat index) n"
  shows "while_fuel 8192 index (0, bits AND 0x0001FFFFF) = Some (Inr (of_nat (n mod 131071)))
         \<and> reverse_count_p index bits = Some (Inr (of_nat (n mod 131071)))"
proof -
  let ?poly = "polynomials ! unat index"
  have "state_at ?poly (n mod 131071) = state_at ?poly n"
    by (rule state_at_mod) (rule period_131071 [OF assms(1)])
  then have buffer: "bits AND 0x0001FFFFF = state_at ?poly (n mod 131071) AND 0x0001FFFFF"
    by (simp only: assms(2) mask_state)
  have fuel: "while_fuel 8192 index (0, bits AND 0x0001FFFFF)
      = Some (Inr (of_nat (n mod 131071)))"
    unfolding buffer by (rule reverse_count_p_fuel [OF assms(1)]) simp
  then have "while_loop index (0, bits AND 0x0001FFFFF) = Some (Inr (of_nat (n mod 131071)))"
    by (rule while_fuel_sound)
  with fuel show ?thesis
    by (simp only: reverse_count_p_def)
qed

theorem bounded_work_witness:
  "unat (0::u8) < 4 \<and> 2 AND 0x0001FFFFF = state_at (polynomials ! unat (0::u8)) 1
   \<and> while_fuel 8192 0 (0, 2 AND 0x0001FFFFF) = Some (Inr 1)
   \<and> reverse_count_p 0 2 = Some (Inr 1)"
proof -
  have h1: "unat (0::u8) < 4"
    by simp
  have h2: "(2::u32) AND 0x0001FFFFF = state_at (polynomials ! unat (0::u8)) 1"
    by (simp add: state_at_def forward_step_def parity_loop_def polynomials_def upt_0_17)
  show ?thesis
    using h1 h2 bounded_work [OF h1 h2] by simp
qed

text \<open>
  Claim C7 (no termination off the cycle). The register state of an input is its low 17
  bits. For every polynomial index below 4: when the register state of \<open>bits\<close> is no
  state of the sequence that starts at the seed, \<open>reverse_count_p\<close> never returns. In
  particular the reverse transition maps 0 to 0, so from the input 0 the buffer is 0
  after any number of steps, which is neither the seed nor a saved state; the loop has
  not left after any number \<open>n\<close> of runs of its body, and \<open>reverse_count_p\<close> never returns.
\<close>

theorem off_cycle_diverges:
  "unat index < 4 \<longrightarrow>
     ((\<forall>n. take_bit 17 bits \<noteq> state_at (polynomials ! unat index) n)
        \<longrightarrow> reverse_count_p index bits = None)
     \<and> reverse_step (polynomials ! unat index) 0 = 0
     \<and> (\<forall>n. (reverse_step (polynomials ! unat index) ^^ n) 0 = 0
            \<and> while_fuel n index (0, 0 AND 0x0001FFFFF) = None)
     \<and> (\<forall>k<16. end_buffers ! unat index ! k \<noteq> 0)
     \<and> reverse_count_p index 0 = None"
proof (intro impI conjI allI)
  assume idx: "unat index < 4"
  show "reverse_count_p index bits = None"
    if off: "\<forall>n. take_bit 17 bits \<noteq> state_at (polynomials ! unat index) n"
  proof -
    have "take_bit 17 bits = 0"
    proof (rule ccontr)
      assume "take_bit 17 bits \<noteq> 0"
      with idx have "\<exists>n<131071. take_bit 17 bits = state_at (polynomials ! unat index) n"
        by (intro on_cycle) simp_all
      with off show False by blast
    qed
    then have "take_bit 17 (bits AND 0x0001FFFFF) = 0"
      by (simp add: and_1fffff)
    with idx show ?thesis
      unfolding reverse_count_p_def by (rule while_loop_zero)
  qed
  show "reverse_step (polynomials ! unat index) 0 = 0"
    by (rule reverse_step_zero)
  show "(reverse_step (polynomials ! unat index) ^^ n) 0 = 0" for n
    by (rule reverse_pow_zero)
  show "while_fuel n index (0, 0 AND 0x0001FFFFF) = None" for n
    using idx by (intro while_fuel_zero) simp_all
  show "end_buffers ! unat index ! k \<noteq> 0" if "k < 16" for k
    using idx that by (rule entry_nonzero)
  show "reverse_count_p index 0 = None"
    unfolding reverse_count_p_def using idx by (intro while_loop_zero) simp_all
qed

theorem off_cycle_diverges_witness:
  "unat (2::u8) < 4
   \<and> (\<forall>n. take_bit 17 (0x001E0000::u32) \<noteq> state_at (polynomials ! unat (2::u8)) n)
   \<and> reverse_count_p 2 0x001E0000 = None
   \<and> (7::nat) < 16 \<and> end_buffers ! unat (2::u8) ! 7 \<noteq> 0
   \<and> reverse_count_p 2 0 = None"
proof -
  have h1: "unat (2::u8) < 4" and h3: "(7::nat) < 16"
    by simp_all
  have h2: "\<forall>n. take_bit 17 (0x001E0000::u32) \<noteq> state_at (polynomials ! unat (2::u8)) n"
    using state_at_nonzero [of "polynomials ! unat (2::u8)", THEN not_sym] by simp
  from off_cycle_diverges [of 2 "0x001E0000"] h1 h2 h3 show ?thesis
    by blast
qed

text \<open>
  Claim C8 says that the result depends only on the low 17 bits of the input. The mask
  of line 99 keeps 21 bits, and bits 17 to 20 take part in the first comparison with the
  seed: on the input \<open>0x20001\<close>, whose low 17 bits are the seed, the loop is entered and
  the value returned is 131071, while the value returned on the seed is 0.
\<close>

theorem seed_with_high_bits:
  "reverse_count_p 0 0x00020001 = Some (Inr 131071)
   \<and> reverse_count_p 0 (0x00020001 AND 0x0001FFFF) = Some (Inr 0)"
proof
  show "reverse_count_p 0 0x00020001 = Some (Inr 131071)"
    by (rule reverse_count_p_seed_high_bits) simp
  have "reverse_count_p 0 (state_at (polynomials ! unat (0::u8)) 0) = Some (Inr (of_nat 0))"
    by (rule reverse_count_p_state) simp_all
  then show "reverse_count_p 0 (0x00020001 AND 0x0001FFFF) = Some (Inr 0)"
    by (simp add: state_at_0)
qed

text \<open>
  Claim C9 (index bounds): for a polynomial index below 4 every table access of
  \<open>reverse_count_p\<close> is in bounds: the access to \<open>polynomials\<close>, the accesses to
  \<open>end_buffers\<close> at entry 0 and at the entries of the scan, hence the body of the loop
  and the function never give the out-of-bounds error. The function does not check its
  index: for an index of 4 or more the first table access is already out of bounds.
\<close>

theorem index_bounds:
  "(unat index < 4 \<longrightarrow>
      (\<exists>poly. polynomial_at index = Inr poly)
      \<and> (\<forall>idx\<in>set (0 # scan_indices). unat idx < 16 \<and> (\<exists>saved. end_buffer_at index idx = Inr saved))
      \<and> (\<exists>s'. loop_body index s = Inr s')
      \<and> reverse_count_p index bits \<noteq> Some (Inl OutOfBounds))
   \<and> (\<not> unat index < 4 \<longrightarrow>
      end_buffer_at index 0 = Inl OutOfBounds
      \<and> reverse_count_p index bits = Some (Inl OutOfBounds))"
proof (intro conjI impI)
  assume idx: "unat index < 4"
  show "\<exists>poly. polynomial_at index = Inr poly"
    using polynomial_at_Inr [OF idx] by blast
  have "\<forall>idx::u8\<in>set (map of_nat [1..<16]). unat idx < 16 \<and> True"
    by (rule scan_ball [where P = "\<lambda>_. True"]) simp_all
  then have "\<forall>idx\<in>set (0 # scan_indices). unat idx < 16"
    by (simp add: scan_indices_def)
  then show "\<forall>idx\<in>set (0 # scan_indices).
      unat idx < 16 \<and> (\<exists>saved. end_buffer_at index idx = Inr saved)"
    using end_buffer_at_Inr [OF idx] by blast
  obtain count buffer where s: "s = (count, buffer)"
    by (cases s)
  show "\<exists>s'. loop_body index s = Inr s'"
    unfolding s using loop_body_total [OF idx, of count buffer] by blast
  show "reverse_count_p index bits \<noteq> Some (Inl OutOfBounds)"
    unfolding reverse_count_p_def using while_loop_no_error [OF idx] by fastforce
next
  assume idx: "\<not> unat index < 4"
  show "end_buffer_at index 0 = Inl OutOfBounds"
    using idx by (rule end_buffer_at_Inl)
  show "reverse_count_p index bits = Some (Inl OutOfBounds)"
    unfolding reverse_count_p_def using idx by (rule while_loop_out_of_bounds)
qed

theorem index_bounds_witness:
  "unat (3::u8) < 4
   \<and> (\<exists>poly. polynomial_at 3 = Inr poly)
   \<and> (\<exists>s'. loop_body 3 (0, 5) = Inr s')
   \<and> reverse_count_p 3 5 \<noteq> Some (Inl OutOfBounds)
   \<and> \<not> unat (4::u8) < 4
   \<and> reverse_count_p 4 1 = Some (Inl OutOfBounds)"
proof -
  have h1: "unat (3::u8) < 4" and h2: "\<not> unat (4::u8) < 4"
    by simp_all
  from index_bounds [of 3 "(0, 5)" 5] index_bounds [of 4 "(0, 5)" 1] h1 h2 show ?thesis
    by blast
qed

text \<open>
  Claim C10 (buffer width): for every polynomial index below 4 and every state
  \<open>(count, buffer)\<close> of the loop, one run of the body ends with a buffer below \<open>2 ^ 17\<close>;
  and the bits of the buffer above bit 16 do not change what the body computes, so bits
  17 to 20 of the input can only change the first comparison with the seed.
\<close>

theorem buffer_width:
  "unat index < 4 \<longrightarrow>
     (\<exists>count' buffer'. loop_body index (count, buffer) = Inr (count', buffer') \<and> buffer' < 2 ^ 17)
     \<and> loop_body index (count, buffer AND 0x0001FFFF) = loop_body index (count, buffer)"
proof (intro impI conjI)
  assume "unat index < 4"
  then show "\<exists>count' buffer'. loop_body index (count, buffer) = Inr (count', buffer')
      \<and> buffer' < 2 ^ 17"
    using loop_body_total [of index count buffer] by (simp only: take_bit_17_iff)
  show "loop_body index (count, buffer AND 0x0001FFFF) = loop_body index (count, buffer)"
    by (rule loop_body_low)
qed

theorem buffer_width_witness:
  "unat (0::u8) < 4
   \<and> (\<exists>count' buffer'. loop_body 0 (7, 0x001E0002) = Inr (count', buffer') \<and> buffer' < 2 ^ 17)
   \<and> loop_body 0 (7, 0x001E0002 AND 0x0001FFFF) = loop_body 0 (7, 0x001E0002)"
proof -
  have h: "unat (0::u8) < 4"
    by simp
  from buffer_width [of 0 7 "0x001E0002"] h show ?thesis
    by blast
qed

end
